theory Spec2Isabelle
  imports Main "HOL-Library.Multiset"
begin

section \<open>Data model of lib/pool.js\<close>

text \<open>
  The pool is a closure over the variables \<open>closed\<close>, \<open>connectionInCreation\<close>,
  \<open>idleConnections\<close>, \<open>activeConnections\<close>, \<open>taskQueue\<close> and \<open>firstTaskTimeout\<close>.
  Every callback of the source (a public method, the completion of \<open>connect\<close>, \<open>ping\<close>,
  \<open>query\<close> or \<open>rollback\<close>, a \<open>process.nextTick\<close> callback, the timer, a session's
  \<open>error\<close> event) runs to completion on one thread; each one is an \<open>event\<close> below and
  \<open>step\<close> is its effect on the state.

  A session object is identified by a natural number, which also stands for its
  \<open>threadId\<close> (the key under which \<open>activeConnections\<close> stores it). The values of
  \<open>activeConnections\<close> are never read by the source, only its keys are counted, so the
  object is modelled by the list of its keys. \<open>Date.now()\<close> is an integer supplied with
  each event; \<open>new Date(0)\<close> is the integer 0 (the value it coerces to in
  \<open>Date.now() - conn.lastUse\<close>).
\<close>

datatype errno = ER_POOL_ALREADY_CLOSED | ER_GET_CONNECTION_TIMEOUT

text \<open>
  \<open>Errors.createError(msg, fatal, info, sqlState, errno, stack, addHeader)\<close>: the error
  module is outside lib/pool.js, so an error built by it is the tuple of the arguments
  the pool passes (\<open>info\<close> is \<open>null\<close>, \<open>stack\<close> is \<open>undefined\<close> and \<open>addHeader\<close> is
  \<open>false\<close> at both call sites). \<open>SessionError\<close> is an error object that a session
  produced (a failed query).
\<close>

datatype error =
  CreateError string bool string errno
| SessionError string

datatype exn = TypeError | JsError string

record config =
  connectionLimit :: int
  acquireTimeout :: int
  minDelayValidation :: int
  useCallback :: bool

text \<open>
  A task of the waiter queue: \<open>{timeout, reject, resolve, sql, values}\<close>. \<open>resolve\<close> and
  \<open>reject\<close> settle the promise that \<open>handleRequest\<close> returned; \<open>promise\<close> is the
  identity of that promise. \<open>sql\<close> is \<open>None\<close> for \<open>getConnection\<close> (\<open>undefined\<close>).
\<close>

record task =
  timeout :: int
  promise :: nat
  sql :: "string option"
  vals :: string

text \<open>The closure of a pending \<open>handleRequest\<close>: its promise, \<open>sql\<close> and \<open>values\<close>.\<close>

type_synonym request = "nat \<times> string option \<times> string"

text \<open>
  The timer behind \<open>firstTaskTimeout\<close>: the task it was armed with, the time at which it
  is due, and whether it is still live (\<open>clearTimeout\<close> in \<open>end\<close> cancels the timer
  and leaves the variable set).
\<close>

record timer =
  target :: task
  dueAt :: int
  live :: bool

datatype tick =
  TickAddConnection bool
| TickHandleTaskQueue
| TickReject task error

datatype result = Session nat | Rows string

text \<open>
  What the pool does to its collaborators, in order: the calls it makes on sessions
  (\<open>CallEnd\<close> and \<open>CallDestroy\<close> are the session's own \<open>end\<close> and \<open>destroy\<close>, not the
  wrappers), the settlement of the promises it returned, the exceptions its callbacks
  raise, and \<open>AwaitAll p cs\<close>: promise \<open>p\<close> is \<open>Promise.all\<close> over the endings of \<open>cs\<close>.
\<close>

datatype effect =
  CallConnect nat
| CallPing nat
| CallQuery nat "string option" string
| CallRollback nat
| CallEnd nat
| CallDestroy nat
| Resolved nat result
| Rejected nat error
| Thrown exn
| AwaitAll nat "nat list"

record pool =
  closed :: bool
  connectionInCreation :: bool
  idleConnections :: "nat list"
  activeConnections :: "nat list"
  taskQueue :: "task list"
  firstTaskTimeout :: "timer option"
  lastUse :: "nat \<Rightarrow> int"
  boundSelf :: "nat \<Rightarrow> bool"
  connecting :: "(nat \<times> bool) list"
  pinging :: "(nat \<times> request option) list"
  found :: "(nat \<times> request) list"
  notFound :: "request list"
  querying :: "(nat \<times> nat) list"
  rollingBack :: "nat list"
  ticks :: "tick list"
  nextConn :: nat
  nextPromise :: nat
  effects :: "effect list"

text \<open>
  The fields after \<open>firstTaskTimeout\<close> are the rest of the program state:
  \<^item> \<open>lastUse c\<close> is the field \<open>conn.lastUse\<close> of session \<open>c\<close>;
  \<^item> \<open>boundSelf c\<close> tells whether the \<open>self\<close> captured by the wrappers of \<open>c\<close> in
    \<open>overlayNewConnection\<close> is the pool (\<open>False\<close>: it is \<open>undefined\<close>);
  \<^item> \<open>connecting\<close>: the \<open>connect()\<close> calls in flight, each with the session it creates and
    whether the \<open>pool\<close> argument of \<open>addConnectionToPool\<close> is defined;
  \<^item> \<open>pinging\<close>: the \<open>ping\<close> calls in flight, with the request they serve (\<open>None\<close>: the
    promise of that \<open>getIdleValidConnection\<close> call has no handler);
  \<^item> \<open>found\<close> and \<open>notFound\<close>: promises of \<open>getIdleValidConnection\<close> that are resolved
    with a session, or rejected, and whose handler in \<open>handleRequest\<close> has not run yet;
  \<^item> \<open>querying\<close>: queries the pool issued, with the promise their outcome settles;
  \<^item> \<open>rollingBack\<close>: the \<open>rollback\<close> calls of the wrapped \<open>end\<close> in flight;
  \<^item> \<open>ticks\<close>: the \<open>process.nextTick\<close> queue;
  \<^item> \<open>nextConn\<close>, \<open>nextPromise\<close>: the next fresh session and promise identities;
  \<^item> \<open>effects\<close>: the log of effects.
\<close>

definition initial :: pool where
  "initial = \<lparr>closed = False, connectionInCreation = False, idleConnections = [],
     activeConnections = [], taskQueue = [], firstTaskTimeout = None,
     lastUse = (\<lambda>_. 0), boundSelf = (\<lambda>_. False), connecting = [], pinging = [],
     found = [], notFound = [], querying = [], rollingBack = [], ticks = [],
     nextConn = 0, nextPromise = 0, effects = []\<rparr>"

definition poolClosedError :: error where
  "poolClosedError = CreateError ''pool is closed'' False ''HY000'' ER_POOL_ALREADY_CLOSED"

definition timeoutError :: error where
  "timeoutError =
     CreateError ''retrieve connection from pool timeout'' False ''HY000'' ER_GET_CONNECTION_TIMEOUT"

text \<open>
  \<open>setTimeout(callback, delay)\<close> of Node.js: a delay that is not between 1 and
  \<open>2^31 - 1\<close> milliseconds is set to 1. \<open>setTimeoutDelay\<close> is the delay the timer runs
  with; the timer is due that long after the call.
\<close>

definition setTimeoutDelay :: "int \<Rightarrow> int" where
  "setTimeoutDelay delay = (if 1 \<le> delay \<and> delay \<le> 2147483647 then delay else 1)"

text \<open>\<open>if (sql)\<close>: \<open>undefined\<close> and the empty string are falsy.\<close>

fun truthy :: "string option \<Rightarrow> bool" where
  "truthy None = False"
| "truthy (Some s) = (s \<noteq> [])"

section \<open>Stat accessors\<close>

definition activeCount :: "pool \<Rightarrow> nat" where
  "activeCount s = length (activeConnections s)"

definition idleCount :: "pool \<Rightarrow> nat" where
  "idleCount s = length (idleConnections s)"

definition totalConnections :: "pool \<Rightarrow> nat" where
  "totalConnections s = activeCount s + idleCount s"

definition taskQueueSize :: "pool \<Rightarrow> nat" where
  "taskQueueSize s = length (taskQueue s)"

section \<open>Internal methods\<close>

text \<open>An uncaught exception of a callback is logged.\<close>

fun uncaught :: "pool \<times> exn option \<Rightarrow> pool" where
  "uncaught (s, None) = s"
| "uncaught (s, Some e) = s\<lparr>effects := effects s @ [Thrown e]\<rparr>"

text \<open>
  \<open>checkPoolSize.apply(this)\<close>. \<open>this.totalConnections()\<close> is evaluated only when
  \<open>connectionInCreation\<close> is false, and raises a \<open>TypeError\<close> when \<open>this\<close> is
  \<open>undefined\<close>.
\<close>

definition checkPoolSize :: "config \<Rightarrow> bool \<Rightarrow> pool \<Rightarrow> pool \<times> exn option" where
  "checkPoolSize cfg this s =
     (if connectionInCreation s then (s, None)
      else if \<not> this then (s, Some TypeError)
      else if int (totalConnections s) < connectionLimit cfg
      then (s\<lparr>connectionInCreation := True,
               ticks := ticks s @ [TickAddConnection this]\<rparr>, None)
      else (s, None))"

text \<open>
  \<open>addConnectionToPoolPromise\<close> and \<open>addConnectionCallbackToPool\<close> up to the call of
  \<open>connect\<close>: the flag is set, a session object is created and \<open>connect\<close> is called.
\<close>

definition addConnectionToPool :: "bool \<Rightarrow> pool \<Rightarrow> pool" where
  "addConnectionToPool p s =
     s\<lparr>connectionInCreation := True,
       nextConn := Suc (nextConn s),
       connecting := connecting s @ [(nextConn s, p)],
       effects := effects s @ [CallConnect (nextConn s)]\<rparr>"

text \<open>
  \<open>rejectTimeout\<close>. \<open>task === taskQueue.peekFront()\<close> compares object identities; a task
  carries the identity of its promise, so equal tasks are the same object.
\<close>

definition rejectTimeout :: "task \<Rightarrow> pool \<Rightarrow> pool \<times> exn option" where
  "rejectTimeout t s =
     (let s1 = s\<lparr>firstTaskTimeout := None\<rparr> in
      case taskQueue s1 of
        [] \<Rightarrow> (s1, Some (JsError ''Rejection by timeout without task !!!''))
      | front # rest \<Rightarrow>
          if t = front
          then (s1\<lparr>taskQueue := rest, ticks := ticks s1 @ [TickReject t timeoutError]\<rparr>, None)
          else (s1, Some (JsError ''Rejection by timeout without task !!!'')))"

function resetTimeoutToNextTask :: "int \<Rightarrow> pool \<Rightarrow> pool \<times> exn option" where
  "resetTimeoutToNextTask currTime s =
     (case taskQueue s of
        [] \<Rightarrow> (s, None)
      | nextTask # _ \<Rightarrow>
          if timeout nextTask < currTime
          then (case rejectTimeout nextTask s of
                  (s', Some e) \<Rightarrow> (s', Some e)
                | (s', None) \<Rightarrow> resetTimeoutToNextTask currTime s')
          else (s\<lparr>firstTaskTimeout :=
                     Some \<lparr>target = nextTask,
                           dueAt = currTime + setTimeoutDelay (timeout nextTask - currTime),
                           live = True\<rparr>\<rparr>, None))"
  by pat_completeness auto
termination
  by (relation "measure (\<lambda>(currTime, s). length (taskQueue s))")
     (auto simp: rejectTimeout_def Let_def split: list.splits if_splits)

declare resetTimeoutToNextTask.simps [simp del]

definition rejectAndResetTimeout :: "int \<Rightarrow> task \<Rightarrow> pool \<Rightarrow> pool \<times> exn option" where
  "rejectAndResetTimeout now t s =
     (case rejectTimeout t s of
        (s', Some e) \<Rightarrow> (s', Some e)
      | (s', None) \<Rightarrow> resetTimeoutToNextTask now s')"

text \<open>
  \<open>handleTaskQueue\<close>. \<open>idleConnections.shift()\<close> is \<open>undefined\<close> on an empty queue and
  \<open>conn.threadId\<close> then raises a \<open>TypeError\<close>, after the task has been shifted. The query
  of a task with \<open>sql\<close> is issued here; its completion is the event \<open>QueryDone\<close>.
\<close>

definition handleTaskQueue :: "int \<Rightarrow> pool \<Rightarrow> pool \<times> exn option" where
  "handleTaskQueue now s =
     (let s1 = (case firstTaskTimeout s of
                  None \<Rightarrow> s
                | Some _ \<Rightarrow> s\<lparr>firstTaskTimeout := None\<rparr>) in
      case taskQueue s1 of
        [] \<Rightarrow> (s1, None)
      | t # rest \<Rightarrow>
          (let s2 = s1\<lparr>taskQueue := rest\<rparr> in
           case idleConnections s2 of
             [] \<Rightarrow> (s2, Some TypeError)
           | conn # idle \<Rightarrow>
               (let s3 = s2\<lparr>idleConnections := idle,
                            activeConnections := List.insert conn (activeConnections s2)\<rparr> in
                case resetTimeoutToNextTask now s3 of
                  (s4, Some e) \<Rightarrow> (s4, Some e)
                | (s4, None) \<Rightarrow>
                    if truthy (sql t)
                    then (s4\<lparr>effects := effects s4 @ [CallQuery conn (sql t) (vals t)],
                             querying := querying s4 @ [(conn, promise t)]\<rparr>, None)
                    else (s4\<lparr>effects := effects s4 @ [Resolved (promise t) (Session conn)]\<rparr>,
                          None))))"

text \<open>
  \<open>overlayNewConnection\<close>: the session joins the Idle Set, its wrappers capture
  \<open>self\<close>, the flag is cleared, then \<open>checkPoolSize\<close> and \<open>handleTaskQueue\<close> run. An
  exception of \<open>checkPoolSize\<close> skips \<open>handleTaskQueue\<close>.
\<close>

definition overlayNewConnection :: "config \<Rightarrow> int \<Rightarrow> nat \<Rightarrow> bool \<Rightarrow> pool \<Rightarrow> pool \<times> exn option" where
  "overlayNewConnection cfg now conn self s =
     (let s1 = s\<lparr>idleConnections := idleConnections s @ [conn],
                  lastUse := (lastUse s)(conn := now),
                  boundSelf := (boundSelf s)(conn := self),
                  connectionInCreation := False\<rparr> in
      case checkPoolSize cfg self s1 of
        (s2, Some e) \<Rightarrow> (s2, Some e)
      | (s2, None) \<Rightarrow> handleTaskQueue now s2)"

text \<open>
  The outcome of \<open>getIdleValidConnection\<close>: the promise it returns is rejected (no idle
  session), resolved with a session, or waits for the \<open>ping\<close> of a session.
\<close>

datatype idleResult = NoIdle | Valid nat | Probing nat

text \<open>
  \<open>getIdleValidConnection\<close>, with \<open>valid\<close> the sessions whose \<open>isValid()\<close> is true. The
  call on the branch \<open>isValid() = false\<close> is synchronous, so the recursion is part of
  the same callback.
\<close>

function getIdleValidConnection :: "config \<Rightarrow> int \<Rightarrow> nat list \<Rightarrow> pool \<Rightarrow> pool \<times> idleResult" where
  "getIdleValidConnection cfg now valid s =
     (case idleConnections s of
        [] \<Rightarrow> (s, NoIdle)
      | conn # idle \<Rightarrow>
          (let s1 = s\<lparr>idleConnections := idle,
                       activeConnections := List.insert conn (activeConnections s)\<rparr> in
           if minDelayValidation cfg \<le> 0 \<or> now - lastUse s1 conn > minDelayValidation cfg
           then (s1\<lparr>effects := effects s1 @ [CallPing conn]\<rparr>, Probing conn)
           else if conn \<in> set valid then (s1, Valid conn)
           else getIdleValidConnection cfg now valid
                  (s1\<lparr>activeConnections := removeAll conn (activeConnections s1)\<rparr>)))"
  by pat_completeness auto
termination
  by (relation "measure (\<lambda>(cfg, now, valid, s). length (idleConnections s))") auto

declare getIdleValidConnection.simps [simp del]

text \<open>
  Who waits for the promise of a \<open>getIdleValidConnection\<close> call: the handlers of
  \<open>handleRequest\<close> for a request, or nobody.
\<close>

fun settleIdle :: "request option \<Rightarrow> pool \<times> idleResult \<Rightarrow> pool" where
  "settleIdle r (s, Probing c) = s\<lparr>pinging := pinging s @ [(c, r)]\<rparr>"
| "settleIdle (Some req) (s, Valid c) = s\<lparr>found := found s @ [(c, req)]\<rparr>"
| "settleIdle (Some req) (s, NoIdle) = s\<lparr>notFound := notFound s @ [req]\<rparr>"
| "settleIdle None (s, _) = s"

text \<open>\<open>handleRequest\<close> up to the return of its promise, \<open>nextPromise s\<close>.\<close>

definition handleRequest :: "config \<Rightarrow> string option \<Rightarrow> string \<Rightarrow> int \<Rightarrow> nat list \<Rightarrow> pool \<Rightarrow> pool" where
  "handleRequest cfg q v now valid s =
     (let p = nextPromise s; s0 = s\<lparr>nextPromise := Suc p\<rparr> in
      if closed s0 then s0\<lparr>effects := effects s0 @ [Rejected p poolClosedError]\<rparr>
      else settleIdle (Some (p, q, v)) (getIdleValidConnection cfg now valid s0))"

definition getConnection :: "config \<Rightarrow> int \<Rightarrow> nat list \<Rightarrow> pool \<Rightarrow> pool" where
  "getConnection cfg now valid s = handleRequest cfg None [] now valid s"

definition query :: "config \<Rightarrow> string \<Rightarrow> string \<Rightarrow> int \<Rightarrow> nat list \<Rightarrow> pool \<Rightarrow> pool" where
  "query cfg q v now valid s = handleRequest cfg (Some q) v now valid s"

text \<open>
  The wrapped \<open>conn.end\<close> (also \<open>conn.release\<close> and \<open>conn.releaseWithoutError\<close>) up to
  the call of \<open>rollback\<close>.
\<close>

definition wrappedEnd :: "nat \<Rightarrow> pool \<Rightarrow> pool" where
  "wrappedEnd conn s =
     s\<lparr>effects := effects s @ [CallRollback conn], rollingBack := rollingBack s @ [conn]\<rparr>"

text \<open>
  \<open>useConnectionPromise\<close> and \<open>useConnectionCallback\<close> up to the call of \<open>query\<close>, and
  the first handler of \<open>handleRequest\<close>.
\<close>

definition useConnection :: "nat \<Rightarrow> request \<Rightarrow> pool \<Rightarrow> pool" where
  "useConnection conn req s =
     (case req of (p, q, v) \<Rightarrow>
        if truthy q
        then s\<lparr>effects := effects s @ [CallQuery conn q v], querying := querying s @ [(conn, p)]\<rparr>
        else s\<lparr>effects := effects s @ [Resolved p (Session conn)]\<rparr>)"

text \<open>
  The completion of a query the pool issued (in \<open>useConnection\<close> or in
  \<open>handleTaskQueue\<close>, in both variants): \<open>conn.releaseWithoutError()\<close>, then the outcome.
\<close>

definition queryDone :: "nat \<Rightarrow> nat \<Rightarrow> error + string \<Rightarrow> pool \<Rightarrow> pool" where
  "queryDone conn p res s =
     (let s1 = wrappedEnd conn s in
      case res of
        Inl err \<Rightarrow> s1\<lparr>effects := effects s1 @ [Rejected p err]\<rparr>
      | Inr rows \<Rightarrow> s1\<lparr>effects := effects s1 @ [Resolved p (Rows rows)]\<rparr>)"

text \<open>The second handler of \<open>handleRequest\<close>: no idle connection available.\<close>

definition onNoIdle :: "config \<Rightarrow> int \<Rightarrow> request \<Rightarrow> pool \<Rightarrow> pool" where
  "onNoIdle cfg now req s =
     (case req of (p, q, v) \<Rightarrow>
        (let s1 = (if \<not> connectionInCreation s \<and> connectionLimit cfg > int (totalConnections s)
                   then addConnectionToPool False s else s);
             t = \<lparr>timeout = now + acquireTimeout cfg, promise = p, sql = q, vals = v\<rparr>;
             s2 = (case firstTaskTimeout s1 of
                     None \<Rightarrow> s1\<lparr>firstTaskTimeout :=
                                 Some \<lparr>target = t, dueAt = now + setTimeoutDelay (acquireTimeout cfg),
                                       live = True\<rparr>\<rparr>
                   | Some _ \<Rightarrow> s1)
         in s2\<lparr>taskQueue := taskQueue s2 @ [t]\<rparr>))"

text \<open>
  The completion of a \<open>ping\<close>. On failure the promise variant returns the promise of the
  recursive call from its \<open>catch\<close> handler; the callback variant returns it from the
  callback of \<open>ping\<close>, where nobody reads it.
\<close>

definition pingDone :: "config \<Rightarrow> nat \<Rightarrow> request option \<Rightarrow> bool \<Rightarrow> int \<Rightarrow> nat list \<Rightarrow> pool \<Rightarrow> pool" where
  "pingDone cfg conn r ok now valid s =
     (if ok then settleIdle r (s, Valid conn)
      else settleIdle (if useCallback cfg then None else r)
             (getIdleValidConnection cfg now valid
                (s\<lparr>activeConnections := removeAll conn (activeConnections s)\<rparr>)))"

text \<open>The completion of the \<open>rollback\<close> of the wrapped \<open>conn.end\<close>.\<close>

definition rollbackDone :: "config \<Rightarrow> nat \<Rightarrow> bool \<Rightarrow> int \<Rightarrow> pool \<Rightarrow> pool \<times> exn option" where
  "rollbackDone cfg conn ok now s =
     (if ok then
        (let s1 = s\<lparr>lastUse := (lastUse s)(conn := now),
                     activeConnections := removeAll conn (activeConnections s)\<rparr> in
         if closed s1 then (s1\<lparr>effects := effects s1 @ [CallEnd conn]\<rparr>, None)
         else (s1\<lparr>idleConnections := idleConnections s1 @ [conn],
                   ticks := ticks s1 @ [TickHandleTaskQueue]\<rparr>, None))
      else
        (let s1 = s\<lparr>activeConnections := removeAll conn (activeConnections s),
                     effects := effects s @ [CallEnd conn]\<rparr> in
         checkPoolSize cfg (boundSelf s1 conn) s1))"

text \<open>The wrapped \<open>conn.destroy\<close>.\<close>

definition wrappedDestroy :: "config \<Rightarrow> nat \<Rightarrow> pool \<Rightarrow> pool \<times> exn option" where
  "wrappedDestroy cfg conn s =
     (let s1 = s\<lparr>activeConnections := removeAll conn (activeConnections s),
                  effects := effects s @ [CallDestroy conn]\<rparr> in
      checkPoolSize cfg (boundSelf s1 conn) s1)"

text \<open>
  The handler of a session's \<open>error\<close> event. \<open>errorScan\<close> is its \<open>while\<close> loop over
  \<open>idleConnections.peekAt(idx)\<close>.
\<close>

function errorScan :: "nat \<Rightarrow> nat \<Rightarrow> pool \<Rightarrow> pool" where
  "errorScan conn idx s =
     (if idx < length (idleConnections s) then
        (let currConn = idleConnections s ! idx in
         if currConn = conn
         then s\<lparr>idleConnections := take idx (idleConnections s) @ drop (Suc idx) (idleConnections s)\<rparr>
         else errorScan conn (Suc idx) (s\<lparr>lastUse := (lastUse s)(currConn := 0)\<rparr>))
      else s)"
  by pat_completeness auto
termination
  by (relation "measure (\<lambda>(conn, idx, s). length (idleConnections s) - idx)") auto

declare errorScan.simps [simp del]

definition onError :: "config \<Rightarrow> nat \<Rightarrow> pool \<Rightarrow> pool \<times> exn option" where
  "onError cfg conn s =
     (let s1 = s\<lparr>activeConnections := removeAll conn (activeConnections s)\<rparr>;
          s2 = errorScan conn 0 s1 in
      checkPoolSize cfg (boundSelf s2 conn) s2)"

text \<open>
  The completion of \<open>connect\<close>. \<open>connectThen\<close> is the \<open>then\<close> handler of the promise
  variant and the branch without \<open>err\<close> of the callback variant; \<open>connectCatch\<close> is
  the \<open>catch\<close> handler and the branch with \<open>err\<close>. In the promise variant an exception
  of the \<open>then\<close> handler reaches the \<open>catch\<close> handler.
\<close>

definition connectThen :: "config \<Rightarrow> int \<Rightarrow> nat \<Rightarrow> bool \<Rightarrow> pool \<Rightarrow> pool \<times> exn option" where
  "connectThen cfg now conn p s =
     (if closed s then (s\<lparr>effects := effects s @ [CallEnd conn]\<rparr>, None)
      else overlayNewConnection cfg now conn p s)"

definition connectCatch :: "config \<Rightarrow> bool \<Rightarrow> pool \<Rightarrow> pool \<times> exn option" where
  "connectCatch cfg p s = checkPoolSize cfg p (s\<lparr>connectionInCreation := False\<rparr>)"

definition connectDone :: "config \<Rightarrow> nat \<Rightarrow> bool \<Rightarrow> bool \<Rightarrow> int \<Rightarrow> pool \<Rightarrow> pool" where
  "connectDone cfg conn p ok now s =
     (if \<not> ok then uncaught (connectCatch cfg p s)
      else if useCallback cfg then uncaught (connectThen cfg now conn p s)
      else (case connectThen cfg now conn p s of
              (s', None) \<Rightarrow> s'
            | (s', Some e) \<Rightarrow> uncaught (connectCatch cfg p s')))"

section \<open>Public methods\<close>

text \<open>
  The loop of \<open>end\<close>: every idle session is shifted and its (wrapped) \<open>end\<close> is called;
  the second component collects the sessions on which it was called.
\<close>

function drainIdle :: "pool \<Rightarrow> pool \<times> nat list" where
  "drainIdle s =
     (case idleConnections s of
        [] \<Rightarrow> (s, [])
      | conn # idle \<Rightarrow>
          (case drainIdle (wrappedEnd conn (s\<lparr>idleConnections := idle\<rparr>)) of
             (s', cs) \<Rightarrow> (s', conn # cs)))"
  by pat_completeness auto
termination
  by (relation "measure (\<lambda>s. length (idleConnections s))") (auto simp: wrappedEnd_def)

declare drainIdle.simps [simp del]

text \<open>
  \<open>end\<close>. The array \<open>idleConnectionsEndings\<close> holds what the calls of the wrapped \<open>end\<close>
  returned. In the promise variant that is the promise of each ending; in the callback
  variant the wrapped \<open>end\<close> returns \<open>undefined\<close>, so that \<open>Promise.all\<close> is over no
  promise at all and awaits no ending.
\<close>

definition endPool :: "config \<Rightarrow> pool \<Rightarrow> pool" where
  "endPool cfg s =
     (let p = nextPromise s;
          s0 = s\<lparr>nextPromise := Suc p,
                 firstTaskTimeout := map_option (\<lambda>t. t\<lparr>live := False\<rparr>) (firstTaskTimeout s)\<rparr> in
      if closed s0 then s0\<lparr>effects := effects s0 @ [Rejected p poolClosedError]\<rparr>
      else (case drainIdle s0 of
              (s1, cs) \<Rightarrow>
                s1\<lparr>closed := True, taskQueue := [],
                   effects := effects s1 @ [AwaitAll p (if useCallback cfg then [] else cs)]\<rparr>))"

definition activatePool :: "pool \<Rightarrow> pool" where
  "activatePool s = addConnectionToPool True s"

section \<open>Events\<close>

text \<open>
  \<^item> \<open>GetConnection\<close>, \<open>Query\<close>, \<open>EndPool\<close>, \<open>ActivatePool\<close>: calls of the public methods;
  \<^item> \<open>Continue p\<close>: the handler of \<open>handleRequest\<close> for promise \<open>p\<close> runs;
  \<^item> \<open>ConnectDone\<close>, \<open>PingDone\<close>, \<open>QueryDone\<close>, \<open>RollbackDone\<close>: a session operation
    completes (the flag is success);
  \<^item> \<open>Release c\<close>, \<open>Destroy c\<close>: the holder of session \<open>c\<close> calls its wrapped \<open>end\<close>
    (or \<open>release\<close>) or \<open>destroy\<close>; \<open>ConnError c\<close>: session \<open>c\<close> emits \<open>error\<close>;
  \<^item> \<open>NextTick\<close>: the first callback of the \<open>process.nextTick\<close> queue runs;
  \<^item> \<open>TimerFire\<close>: the timer of \<open>firstTaskTimeout\<close> fires; a timer fires when it is
    due, not before.
  An event whose callback does not exist (no such operation in flight, no live timer
  that is due) leaves the state unchanged.
\<close>

datatype event =
  GetConnection int "nat list"
| Query string string int "nat list"
| EndPool
| ActivatePool
| Continue nat int
| ConnectDone nat bool int
| PingDone nat bool int "nat list"
| QueryDone nat "error + string"
| RollbackDone nat bool int
| Release nat
| Destroy nat
| ConnError nat
| NextTick int
| TimerFire int

fun step :: "config \<Rightarrow> event \<Rightarrow> pool \<Rightarrow> pool" where
  "step cfg (GetConnection now valid) s = getConnection cfg now valid s"
| "step cfg (Query q v now valid) s = query cfg q v now valid s"
| "step cfg EndPool s = endPool cfg s"
| "step cfg ActivatePool s = activatePool s"
| "step cfg (Continue p now) s =
     (case find (\<lambda>(c, r). fst r = p) (found s) of
        Some (c, r) \<Rightarrow> useConnection c r (s\<lparr>found := remove1 (c, r) (found s)\<rparr>)
      | None \<Rightarrow>
          (case find (\<lambda>r. fst r = p) (notFound s) of
             Some r \<Rightarrow> onNoIdle cfg now r (s\<lparr>notFound := remove1 r (notFound s)\<rparr>)
           | None \<Rightarrow> s))"
| "step cfg (ConnectDone c ok now) s =
     (case map_of (connecting s) c of
        Some p \<Rightarrow> connectDone cfg c p ok now (s\<lparr>connecting := remove1 (c, p) (connecting s)\<rparr>)
      | None \<Rightarrow> s)"
| "step cfg (PingDone c ok now valid) s =
     (case map_of (pinging s) c of
        Some r \<Rightarrow> pingDone cfg c r ok now valid (s\<lparr>pinging := remove1 (c, r) (pinging s)\<rparr>)
      | None \<Rightarrow> s)"
| "step cfg (QueryDone c res) s =
     (case map_of (querying s) c of
        Some p \<Rightarrow> queryDone c p res (s\<lparr>querying := remove1 (c, p) (querying s)\<rparr>)
      | None \<Rightarrow> s)"
| "step cfg (RollbackDone c ok now) s =
     (if c \<in> set (rollingBack s)
      then uncaught (rollbackDone cfg c ok now (s\<lparr>rollingBack := remove1 c (rollingBack s)\<rparr>))
      else s)"
| "step cfg (Release c) s = wrappedEnd c s"
| "step cfg (Destroy c) s = uncaught (wrappedDestroy cfg c s)"
| "step cfg (ConnError c) s = uncaught (onError cfg c s)"
| "step cfg (NextTick now) s =
     (case ticks s of
        [] \<Rightarrow> s
      | TickAddConnection p # ks \<Rightarrow> addConnectionToPool p (s\<lparr>ticks := ks\<rparr>)
      | TickHandleTaskQueue # ks \<Rightarrow> uncaught (handleTaskQueue now (s\<lparr>ticks := ks\<rparr>))
      | TickReject t e # ks \<Rightarrow>
          s\<lparr>ticks := ks, effects := effects s @ [Rejected (promise t) e]\<rparr>)"
| "step cfg (TimerFire now) s =
     (case firstTaskTimeout s of
        None \<Rightarrow> s
      | Some tm \<Rightarrow>
          if live tm \<and> dueAt tm \<le> now then uncaught (rejectAndResetTimeout now (target tm) s)
          else s)"

fun run :: "config \<Rightarrow> event list \<Rightarrow> pool \<Rightarrow> pool" where
  "run cfg [] s = s"
| "run cfg (e # es) s = run cfg es (step cfg e s)"

section \<open>Notions used by the properties\<close>

text \<open>A waiter whose deadline has passed, and the timer that \<open>resetTimeoutToNextTask\<close> arms.\<close>

definition expired :: "int \<Rightarrow> task \<Rightarrow> bool" where
  "expired now t = (timeout t < now)"

definition armed :: "int \<Rightarrow> task \<Rightarrow> timer" where
  "armed now t = \<lparr>target = t, dueAt = now + setTimeoutDelay (timeout t - now), live = True\<rparr>"

text \<open>
  The value of \<open>firstTaskTimeout\<close> after \<open>resetTimeoutToNextTask\<close> on the queue \<open>q\<close>
  (the variable is \<open>old\<close> before), and the state after \<open>handleTaskQueue\<close> has taken
  session \<open>c\<close> for the head of the queue and rearmed the timer for the rest \<open>ts\<close>.
\<close>

definition nextTimer :: "int \<Rightarrow> task list \<Rightarrow> timer option \<Rightarrow> timer option" where
  "nextTimer now q old =
     (case dropWhile (expired now) q of
        [] \<Rightarrow> (if takeWhile (expired now) q = [] then old else None)
      | t # _ \<Rightarrow> Some (armed now t))"

definition rejections :: "task list \<Rightarrow> tick list" where
  "rejections q = map (\<lambda>t. TickReject t timeoutError) q"

definition served :: "int \<Rightarrow> task list \<Rightarrow> nat \<Rightarrow> nat list \<Rightarrow> pool \<Rightarrow> pool" where
  "served now ts c cs s =
     s\<lparr>firstTaskTimeout := nextTimer now ts None,
       taskQueue := dropWhile (expired now) ts,
       idleConnections := cs,
       activeConnections := List.insert c (activeConnections s),
       ticks := ticks s @ rejections (takeWhile (expired now) ts)\<rparr>"

text \<open>
  The test of \<open>getIdleValidConnection\<close> that sends a session to the \<open>ping\<close> probe, and
  the sessions it drops without a probe: recently used, and \<open>isValid()\<close> is false.
\<close>

definition stale :: "config \<Rightarrow> int \<Rightarrow> (nat \<Rightarrow> int) \<Rightarrow> nat \<Rightarrow> bool" where
  "stale cfg now lu c = (minDelayValidation cfg \<le> 0 \<or> now - lu c > minDelayValidation cfg)"

definition dropped :: "config \<Rightarrow> int \<Rightarrow> nat list \<Rightarrow> (nat \<Rightarrow> int) \<Rightarrow> nat \<Rightarrow> bool" where
  "dropped cfg now valid lu c = (\<not> stale cfg now lu c \<and> c \<notin> set valid)"

text \<open>The sessions of the pool: the Idle Set and the Active Set.\<close>

definition sessions :: "pool \<Rightarrow> nat set" where
  "sessions s = set (idleConnections s) \<union> set (activeConnections s)"

text \<open>The settlements of promise \<open>p\<close> in the log.\<close>

fun settles :: "nat \<Rightarrow> effect \<Rightarrow> bool" where
  "settles p (Resolved p' _) = (p = p')"
| "settles p (Rejected p' _) = (p = p')"
| "settles p _ = False"

definition settlements :: "nat \<Rightarrow> pool \<Rightarrow> effect list" where
  "settlements p s = filter (settles p) (effects s)"

text \<open>
  The promises that some pending callback can still settle: those of the queued tasks,
  of the rejections on the \<open>nextTick\<close> queue, and of the requests and queries in flight.
\<close>

fun tickPromise :: "tick \<Rightarrow> nat list" where
  "tickPromise (TickReject t e) = [promise t]"
| "tickPromise _ = []"

fun pingPromise :: "nat \<times> request option \<Rightarrow> nat list" where
  "pingPromise (c, Some r) = [fst r]"
| "pingPromise (c, None) = []"

definition promisesOf :: "pool \<Rightarrow> nat list" where
  "promisesOf s =
     map promise (taskQueue s) @ concat (map tickPromise (ticks s)) @
     concat (map pingPromise (pinging s)) @ map (\<lambda>(c, r). fst r) (found s) @
     map fst (notFound s) @ map snd (querying s)"

text \<open>
  The promises the log mentions, and all promises the state accounts for. In a state that
  is \<open>promisesOk\<close> every promise was allocated and is accounted for once: a pending
  promise is referenced once and not settled yet, and a promise is settled at most once.
\<close>

fun effectPromise :: "effect \<Rightarrow> nat list" where
  "effectPromise (Resolved p _) = [p]"
| "effectPromise (Rejected p _) = [p]"
| "effectPromise (AwaitAll p _) = [p]"
| "effectPromise _ = []"

definition allPromises :: "pool \<Rightarrow> nat list" where
  "allPromises s = promisesOf s @ concat (map effectPromise (effects s))"

definition promisesOk :: "pool \<Rightarrow> bool" where
  "promisesOk s = (distinct (allPromises s) \<and> list_all (\<lambda>p. p < nextPromise s) (allPromises s))"

text \<open>The same as a multiset, and the promises a transition allocates.\<close>

definition acct :: "pool \<Rightarrow> nat multiset" where
  "acct s = mset (allPromises s)"

definition fresh :: "pool \<Rightarrow> pool \<Rightarrow> nat multiset" where
  "fresh s s' = mset [nextPromise s..<nextPromise s']"

text \<open>
  Session creations in flight: \<open>connect\<close> calls not completed, and calls of
  \<open>addConnectionToPool\<close> that \<open>checkPoolSize\<close> has put on the \<open>nextTick\<close> queue.
\<close>

fun isAdd :: "tick \<Rightarrow> bool" where
  "isAdd (TickAddConnection _) = True"
| "isAdd _ = False"

definition creations :: "pool \<Rightarrow> nat" where
  "creations s = length (connecting s) + length (filter isAdd (ticks s))"

definition capOk :: "config \<Rightarrow> pool \<Rightarrow> bool" where
  "capOk cfg s =
     (int (totalConnections s + creations s) \<le> connectionLimit cfg \<and>
      creations s \<le> 1 \<and>
      (connectionInCreation s \<or> creations s = 0))"

text \<open>
  The discipline of the pool's users and sessions under which the capacity bound holds:
  \<open>activatePool\<close> is called only while no creation is in flight and the pool is below its
  limit (as at construction), and a \<open>rollback\<close> succeeds only for a session that is still
  in the Active Set, unless the pool is closed (a session that left the Active Set by a
  fault or by \<open>destroy\<close> is dead, and a session is released once per loan).
\<close>

fun admissible :: "config \<Rightarrow> pool \<Rightarrow> event \<Rightarrow> bool" where
  "admissible cfg s ActivatePool =
     (\<not> connectionInCreation s \<and> int (totalConnections s) < connectionLimit cfg)"
| "admissible cfg s (RollbackDone c ok now) =
     (ok \<and> c \<in> set (rollingBack s) \<and> c \<notin> set (activeConnections s) \<longrightarrow> closed s)"
| "admissible cfg s _ = True"

fun isConnectDone :: "event \<Rightarrow> bool" where
  "isConnectDone (ConnectDone _ _ _) = True"
| "isConnectDone _ = False"

fun disciplined :: "config \<Rightarrow> event list \<Rightarrow> pool \<Rightarrow> bool" where
  "disciplined cfg [] s = True"
| "disciplined cfg (e # es) s = (admissible cfg s e \<and> disciplined cfg es (step cfg e s))"

text \<open>
  Task \<open>t\<close> is the head of the waiter queue; the live timer, if any, is armed for the
  head of the waiter queue.
\<close>

definition atHead :: "task \<Rightarrow> pool \<Rightarrow> bool" where
  "atHead t s = (case taskQueue s of [] \<Rightarrow> False | front # _ \<Rightarrow> t = front)"

definition timerAtHead :: "pool \<Rightarrow> bool" where
  "timerAtHead s =
     (case firstTaskTimeout s of
        None \<Rightarrow> True
      | Some tm \<Rightarrow> if live tm then atHead (target tm) s else True)"

definition assertionFailure :: exn where
  "assertionFailure = JsError ''Rejection by timeout without task !!!''"








section \<open>Example pools\<close>

text \<open>
  A pool of the promise variant with one session at most, and the same with two; a
  pool of the callback variant.
\<close>

definition poolOfOne :: config where
  "poolOfOne = \<lparr>connectionLimit = 1, acquireTimeout = 100, minDelayValidation = 500,
     useCallback = False\<rparr>"

definition poolOfTwo :: config where
  "poolOfTwo = \<lparr>connectionLimit = 2, acquireTimeout = 100, minDelayValidation = 500,
     useCallback = False\<rparr>"

definition callbackPool :: config where
  "callbackPool = \<lparr>connectionLimit = 2, acquireTimeout = 100, minDelayValidation = 500,
     useCallback = True\<rparr>"

text \<open>
  The pool of one session is activated, its session is lent to a first caller, a second
  caller queues (at time 2), and the first caller releases the session (the rollback
  succeeds at time 5).
\<close>

definition releaseToWaiter :: "event list" where
  "releaseToWaiter =
     [ActivatePool, ConnectDone 0 True 0, GetConnection 1 [0], Continue 0 1,
      GetConnection 2 [0], Continue 1 2, Release 0, RollbackDone 0 True 5]"

text \<open>
  As above with a third caller queued behind the second; the session released is then
  taken by a new \<open>getConnection\<close> call before the \<open>nextTick\<close> callback runs, and a
  further caller queues afterwards.
\<close>

definition lostWaiter :: "event list" where
  "lostWaiter =
     [ActivatePool, ConnectDone 0 True 0, GetConnection 1 [0], Continue 0 1,
      GetConnection 2 [0], Continue 1 2, GetConnection 3 [0], Continue 2 3,
      Release 0, RollbackDone 0 True 5, GetConnection 5 [0], NextTick 5, Continue 3 5,
      GetConnection 6 [0], Continue 4 6]"

text \<open>The pool of two sessions is filled: session 0 at time 1000, session 1 at time 1050.\<close>

definition twoIdle :: "event list" where
  "twoIdle = [ActivatePool, ConnectDone 0 True 1000, NextTick 1000, ConnectDone 1 True 1050]"

text \<open>\<open>pool.query("SELECT 1")\<close> on the activated pool of one session.\<close>

definition oneQuery :: "event list" where
  "oneQuery = [ActivatePool, ConnectDone 0 True 1000, Query ''SELECT 1'' [] 1001 [0], Continue 0 1001]"


text \<open>
  The session of the pool of one is lent to a caller; \<open>pool.query("SELECT 1")\<close> then
  queues, and the caller releases the session (the rollback succeeds at time 1005).
\<close>

definition queuedQuery :: "event list" where
  "queuedQuery =
     [ActivatePool, ConnectDone 0 True 1000, GetConnection 1001 [0], Continue 0 1001,
      Query ''SELECT 1'' [] 1002 [0], Continue 1 1002, Release 0, RollbackDone 0 True 1005]"

section \<open>Shapes of the internal methods\<close>

lemma clear_timer:
  "(case firstTaskTimeout s of None \<Rightarrow> s | Some _ \<Rightarrow> s\<lparr>firstTaskTimeout := None\<rparr>) =
   s\<lparr>firstTaskTimeout := None\<rparr>"
  by (cases "firstTaskTimeout s") simp_all

lemma rejectTimeout_front:
  "taskQueue s = t # ts \<Longrightarrow>
   rejectTimeout t s =
     (s\<lparr>firstTaskTimeout := None, taskQueue := ts,
        ticks := ticks s @ [TickReject t timeoutError]\<rparr>, None)"
  by (simp add: rejectTimeout_def)

lemma nextTimer_expired:
  "expired now t \<Longrightarrow> nextTimer now (t # ts) old = nextTimer now ts None"
  by (simp add: nextTimer_def split: list.splits)

lemma nextTimer_pending:
  "\<not> expired now t \<Longrightarrow> nextTimer now (t # ts) old = Some (armed now t)"
  by (simp add: nextTimer_def)

lemma nextTimer_Nil: "nextTimer now [] old = old"
  by (simp add: nextTimer_def)

lemma reset_shape:
  "resetTimeoutToNextTask now s =
     (s\<lparr>taskQueue := dropWhile (expired now) (taskQueue s),
        ticks := ticks s @ rejections (takeWhile (expired now) (taskQueue s)),
        firstTaskTimeout := nextTimer now (taskQueue s) (firstTaskTimeout s)\<rparr>, None)"
proof (induction now s rule: resetTimeoutToNextTask.induct)
  case (1 currTime s)
  show ?case
  proof (cases "taskQueue s")
    case Nil
    then show ?thesis
      by (simp add: resetTimeoutToNextTask.simps[of currTime s] nextTimer_Nil rejections_def)
  next
    case (Cons t ts)
    show ?thesis
    proof (cases "expired currTime t")
      case False
      then have "\<not> timeout t < currTime" by (simp add: expired_def)
      with Cons False show ?thesis
        by (simp add: resetTimeoutToNextTask.simps[of currTime s] nextTimer_pending armed_def
              rejections_def)
    next
      case True
      then have e: "timeout t < currTime" by (simp add: expired_def)
      have r: "rejectTimeout t s = (s\<lparr>firstTaskTimeout := None, taskQueue := ts,
        ticks := ticks s @ [TickReject t timeoutError]\<rparr>, None)"
        using Cons by (rule rejectTimeout_front)
      from "1.IH"[OF Cons e r[symmetric] refl] Cons True e r
      show ?thesis
        by (simp add: resetTimeoutToNextTask.simps[of currTime s] nextTimer_expired rejections_def)
    qed
  qed
qed

lemma handleTaskQueue_empty:
  "taskQueue s = [] \<Longrightarrow> handleTaskQueue now s = (s\<lparr>firstTaskTimeout := None\<rparr>, None)"
  by (simp add: handleTaskQueue_def clear_timer)

lemma handleTaskQueue_no_idle:
  "taskQueue s = t # ts \<Longrightarrow> idleConnections s = [] \<Longrightarrow>
   handleTaskQueue now s = (s\<lparr>firstTaskTimeout := None, taskQueue := ts\<rparr>, Some TypeError)"
  by (simp add: handleTaskQueue_def clear_timer)

lemma handleTaskQueue_serve:
  "taskQueue s = t # ts \<Longrightarrow> idleConnections s = c # cs \<Longrightarrow>
   handleTaskQueue now s =
     (if truthy (sql t)
      then ((served now ts c cs s)\<lparr>effects := effects s @ [CallQuery c (sql t) (vals t)],
                querying := querying s @ [(c, promise t)]\<rparr>, None)
      else ((served now ts c cs s)\<lparr>effects := effects s @ [Resolved (promise t) (Session c)]\<rparr>, None))"
  by (simp add: handleTaskQueue_def clear_timer reset_shape served_def Let_def)

lemma checkPoolSize_cases:
  obtains (skip) "checkPoolSize cfg this s = (s, None)"
  | (throw) "\<not> connectionInCreation s" "\<not> this" "checkPoolSize cfg this s = (s, Some TypeError)"
  | (grow) "\<not> connectionInCreation s" "this" "int (totalConnections s) < connectionLimit cfg"
      "checkPoolSize cfg this s =
         (s\<lparr>connectionInCreation := True, ticks := ticks s @ [TickAddConnection True]\<rparr>, None)"
  by (cases "connectionInCreation s"; cases this; cases "int (totalConnections s) < connectionLimit cfg")
     (auto simp: checkPoolSize_def)

lemma getIdle_shape:
  "getIdleValidConnection cfg now valid s =
     (let sk = takeWhile (dropped cfg now valid (lastUse s)) (idleConnections s);
          act = filter (\<lambda>x. x \<notin> set sk) (activeConnections s) in
      case dropWhile (dropped cfg now valid (lastUse s)) (idleConnections s) of
        [] \<Rightarrow> (s\<lparr>idleConnections := [], activeConnections := act\<rparr>, NoIdle)
      | c # r \<Rightarrow>
          if stale cfg now (lastUse s) c
          then (s\<lparr>idleConnections := r, activeConnections := List.insert c act,
                   effects := effects s @ [CallPing c]\<rparr>, Probing c)
          else (s\<lparr>idleConnections := r, activeConnections := List.insert c act\<rparr>, Valid c))"
proof (induction cfg now valid s rule: getIdleValidConnection.induct)
  case (1 cfg now valid s)
  show ?case
  proof (cases "idleConnections s")
    case Nil
    then show ?thesis by (simp add: getIdleValidConnection.simps[of cfg now valid s])
  next
    case (Cons c cs)
    show ?thesis
    proof (cases "dropped cfg now valid (lastUse s) c")
      case False
      with Cons show ?thesis
        by (auto simp: getIdleValidConnection.simps[of cfg now valid s] dropped_def stale_def Let_def)
    next
      case True
      then have a: "\<not> (minDelayValidation cfg \<le> 0 \<or> now - lastUse s c > minDelayValidation cfg)"
        and b: "c \<notin> set valid"
        by (auto simp: dropped_def stale_def)
      have f: "filter (\<lambda>x. x \<notin> set sk) (removeAll c (List.insert c A)) =
               filter (\<lambda>x. x \<noteq> c \<and> x \<notin> set sk) A" for sk A
        by (induction A) (auto simp: List.insert_def)
      from "1.IH"[OF Cons refl _ b] a Cons True b show ?thesis
        by (simp add: getIdleValidConnection.simps[of cfg now valid s] Let_def f conj_commute
              cong: list.case_cong if_cong)
    qed
  qed
qed

lemma errorScan_shape:
  "idx \<le> length (idleConnections s) \<Longrightarrow>
   errorScan conn idx s =
     (let pre = takeWhile (\<lambda>x. x \<noteq> conn) (drop idx (idleConnections s)) in
      s\<lparr>idleConnections := take idx (idleConnections s) @ pre @
           tl (dropWhile (\<lambda>x. x \<noteq> conn) (drop idx (idleConnections s))),
        lastUse := (\<lambda>x. if x \<in> set pre then 0 else lastUse s x)\<rparr>)"
proof (induction conn idx s rule: errorScan.induct)
  case (1 conn idx s)
  show ?case
  proof (cases "idx < length (idleConnections s)")
    case False
    with "1.prems" have "idx = length (idleConnections s)" by simp
    then show ?thesis
      by (subst errorScan.simps) simp
  next
    case True
    then have d: "drop idx (idleConnections s) = idleConnections s ! idx # drop (Suc idx) (idleConnections s)"
      by (simp add: Cons_nth_drop_Suc)
    show ?thesis
    proof (cases "idleConnections s ! idx = conn")
      case eq: True
      with True d show ?thesis
        by (simp add: errorScan.simps[of conn idx s])
    next
      case ne: False
      have t: "take (Suc idx) (idleConnections s) = take idx (idleConnections s) @ [idleConnections s ! idx]"
        using True by (simp add: take_Suc_conv_app_nth)
      from "1.IH"[OF True refl ne] True ne d t show ?thesis
        by (simp add: errorScan.simps[of conn idx s] Let_def fun_eq_iff cong: if_cong)
    qed
  qed
qed

lemma drainIdle_shape:
  "drainIdle s =
     (s\<lparr>idleConnections := [],
        effects := effects s @ map CallRollback (idleConnections s),
        rollingBack := rollingBack s @ idleConnections s\<rparr>, idleConnections s)"
proof (induction s rule: drainIdle.induct)
  case (1 s)
  show ?case
  proof (cases "idleConnections s")
    case Nil
    then show ?thesis by (simp add: drainIdle.simps[of s])
  next
    case (Cons c cs)
    from "1.IH"[OF Cons] Cons show ?thesis
      by (simp add: drainIdle.simps[of s] wrappedEnd_def)
  qed
qed

section \<open>Frames\<close>

text \<open>What each internal method leaves unchanged, and its cases.\<close>

lemma rejectTimeout_off_head:
  "\<not> atHead t s \<Longrightarrow> rejectTimeout t s = (s\<lparr>firstTaskTimeout := None\<rparr>, Some assertionFailure)"
  by (simp add: rejectTimeout_def atHead_def assertionFailure_def split: list.splits)

lemma rejectTimeout_at_head:
  "atHead t s \<Longrightarrow>
   rejectTimeout t s =
     (s\<lparr>firstTaskTimeout := None, taskQueue := tl (taskQueue s),
        ticks := ticks s @ [TickReject t timeoutError]\<rparr>, None)"
  by (simp add: rejectTimeout_def atHead_def split: list.splits)

lemma uncaught_frame [simp]:
  "closed (uncaught r) = closed (fst r)"
  "connectionInCreation (uncaught r) = connectionInCreation (fst r)"
  "idleConnections (uncaught r) = idleConnections (fst r)"
  "activeConnections (uncaught r) = activeConnections (fst r)"
  "taskQueue (uncaught r) = taskQueue (fst r)"
  "firstTaskTimeout (uncaught r) = firstTaskTimeout (fst r)"
  "lastUse (uncaught r) = lastUse (fst r)"
  "boundSelf (uncaught r) = boundSelf (fst r)"
  "connecting (uncaught r) = connecting (fst r)"
  "pinging (uncaught r) = pinging (fst r)"
  "found (uncaught r) = found (fst r)"
  "notFound (uncaught r) = notFound (fst r)"
  "querying (uncaught r) = querying (fst r)"
  "rollingBack (uncaught r) = rollingBack (fst r)"
  "ticks (uncaught r) = ticks (fst r)"
  "nextConn (uncaught r) = nextConn (fst r)"
  "nextPromise (uncaught r) = nextPromise (fst r)"
  "effects (uncaught r) = effects (fst r) @ (case snd r of None \<Rightarrow> [] | Some e \<Rightarrow> [Thrown e])"
  by (cases r; cases "snd r"; simp)+

lemma checkPoolSize_frame [simp]:
  "closed (fst (checkPoolSize cfg this s)) = closed s"
  "idleConnections (fst (checkPoolSize cfg this s)) = idleConnections s"
  "activeConnections (fst (checkPoolSize cfg this s)) = activeConnections s"
  "taskQueue (fst (checkPoolSize cfg this s)) = taskQueue s"
  "firstTaskTimeout (fst (checkPoolSize cfg this s)) = firstTaskTimeout s"
  "lastUse (fst (checkPoolSize cfg this s)) = lastUse s"
  "boundSelf (fst (checkPoolSize cfg this s)) = boundSelf s"
  "connecting (fst (checkPoolSize cfg this s)) = connecting s"
  "pinging (fst (checkPoolSize cfg this s)) = pinging s"
  "found (fst (checkPoolSize cfg this s)) = found s"
  "notFound (fst (checkPoolSize cfg this s)) = notFound s"
  "querying (fst (checkPoolSize cfg this s)) = querying s"
  "rollingBack (fst (checkPoolSize cfg this s)) = rollingBack s"
  "nextConn (fst (checkPoolSize cfg this s)) = nextConn s"
  "nextPromise (fst (checkPoolSize cfg this s)) = nextPromise s"
  "effects (fst (checkPoolSize cfg this s)) = effects s"
  by (simp_all add: checkPoolSize_def)

lemma handleTaskQueue_cases:
  obtains (empty) "taskQueue s = []" "handleTaskQueue now s = (s\<lparr>firstTaskTimeout := None\<rparr>, None)"
  | (crash) t ts where "taskQueue s = t # ts" "idleConnections s = []"
      "handleTaskQueue now s = (s\<lparr>firstTaskTimeout := None, taskQueue := ts\<rparr>, Some TypeError)"
  | (query) t ts c cs where "taskQueue s = t # ts" "idleConnections s = c # cs" "truthy (sql t)"
      "handleTaskQueue now s =
         ((served now ts c cs s)\<lparr>effects := effects s @ [CallQuery c (sql t) (vals t)],
             querying := querying s @ [(c, promise t)]\<rparr>, None)"
  | (lend) t ts c cs where "taskQueue s = t # ts" "idleConnections s = c # cs" "\<not> truthy (sql t)"
      "handleTaskQueue now s =
         ((served now ts c cs s)\<lparr>effects := effects s @ [Resolved (promise t) (Session c)]\<rparr>, None)"
proof (cases "taskQueue s")
  case Nil
  then show ?thesis using empty by (simp add: handleTaskQueue_empty)
next
  case (Cons t ts)
  show ?thesis
  proof (cases "idleConnections s")
    case Nil
    with Cons show ?thesis using crash by (simp add: handleTaskQueue_no_idle)
  next
    case c: (Cons c cs)
    show ?thesis
    proof (cases "truthy (sql t)")
      case True
      with Cons c show ?thesis using query by (simp add: handleTaskQueue_serve)
    next
      case False
      with Cons c show ?thesis using lend by (simp add: handleTaskQueue_serve)
    qed
  qed
qed

lemma handleTaskQueue_frame [simp]:
  "closed (fst (handleTaskQueue now s)) = closed s"
  "connectionInCreation (fst (handleTaskQueue now s)) = connectionInCreation s"
  "lastUse (fst (handleTaskQueue now s)) = lastUse s"
  "boundSelf (fst (handleTaskQueue now s)) = boundSelf s"
  "connecting (fst (handleTaskQueue now s)) = connecting s"
  "pinging (fst (handleTaskQueue now s)) = pinging s"
  "found (fst (handleTaskQueue now s)) = found s"
  "notFound (fst (handleTaskQueue now s)) = notFound s"
  "rollingBack (fst (handleTaskQueue now s)) = rollingBack s"
  "nextConn (fst (handleTaskQueue now s)) = nextConn s"
  "nextPromise (fst (handleTaskQueue now s)) = nextPromise s"
  by (rule handleTaskQueue_cases[where s = s and now = now]; simp add: served_def)+

lemma getIdle_cases:
  obtains (none) sk where
      "sk = takeWhile (dropped cfg now valid (lastUse s)) (idleConnections s)"
      "idleConnections s = sk"
      "getIdleValidConnection cfg now valid s =
         (s\<lparr>idleConnections := [],
            activeConnections := filter (\<lambda>x. x \<notin> set sk) (activeConnections s)\<rparr>, NoIdle)"
  | (probe) sk c r where
      "sk = takeWhile (dropped cfg now valid (lastUse s)) (idleConnections s)"
      "idleConnections s = sk @ c # r" "stale cfg now (lastUse s) c"
      "getIdleValidConnection cfg now valid s =
         (s\<lparr>idleConnections := r,
            activeConnections := List.insert c (filter (\<lambda>x. x \<notin> set sk) (activeConnections s)),
            effects := effects s @ [CallPing c]\<rparr>, Probing c)"
  | (valid) sk c r where
      "sk = takeWhile (dropped cfg now valid (lastUse s)) (idleConnections s)"
      "idleConnections s = sk @ c # r" "\<not> stale cfg now (lastUse s) c" "c \<in> set valid"
      "getIdleValidConnection cfg now valid s =
         (s\<lparr>idleConnections := r,
            activeConnections := List.insert c (filter (\<lambda>x. x \<notin> set sk) (activeConnections s))\<rparr>,
          Valid c)"
proof -
  let ?P = "dropped cfg now valid (lastUse s)"
  have id: "takeWhile ?P (idleConnections s) @ dropWhile ?P (idleConnections s) = idleConnections s"
    by simp
  show ?thesis
  proof (cases "dropWhile ?P (idleConnections s)")
    case Nil
    from id[unfolded Nil] have "takeWhile ?P (idleConnections s) = idleConnections s" by simp
    then have "idleConnections s = takeWhile ?P (idleConnections s)" by (rule sym)
    moreover from Nil have "getIdleValidConnection cfg now valid s =
         (s\<lparr>idleConnections := [],
            activeConnections := filter (\<lambda>x. x \<notin> set (takeWhile ?P (idleConnections s)))
              (activeConnections s)\<rparr>, NoIdle)"
      by (simp add: getIdle_shape Let_def del: dropWhile_eq_Nil_conv)
    ultimately show ?thesis using none by blast
  next
    case (Cons c r)
    with id have i: "idleConnections s = takeWhile ?P (idleConnections s) @ c # r" by simp
    from Cons have "\<not> ?P c" by (metis hd_dropWhile list.distinct(1) list.sel(1))
    then have sv: "stale cfg now (lastUse s) c \<or> c \<in> set valid" by (auto simp: dropped_def)
    show ?thesis
    proof (cases "stale cfg now (lastUse s) c")
      case True
      with Cons have "getIdleValidConnection cfg now valid s =
         (s\<lparr>idleConnections := r,
            activeConnections := List.insert c
              (filter (\<lambda>x. x \<notin> set (takeWhile ?P (idleConnections s))) (activeConnections s)),
            effects := effects s @ [CallPing c]\<rparr>, Probing c)"
        by (simp add: getIdle_shape Let_def)
      with i True show ?thesis using probe by blast
    next
      case False
      with Cons have "getIdleValidConnection cfg now valid s =
         (s\<lparr>idleConnections := r,
            activeConnections := List.insert c
              (filter (\<lambda>x. x \<notin> set (takeWhile ?P (idleConnections s))) (activeConnections s))\<rparr>,
          Valid c)"
        by (simp add: getIdle_shape Let_def)
      with i False sv show ?thesis using valid by blast
    qed
  qed
qed

lemma getIdle_frame [simp]:
  "closed (fst (getIdleValidConnection cfg now valid s)) = closed s"
  "connectionInCreation (fst (getIdleValidConnection cfg now valid s)) = connectionInCreation s"
  "taskQueue (fst (getIdleValidConnection cfg now valid s)) = taskQueue s"
  "firstTaskTimeout (fst (getIdleValidConnection cfg now valid s)) = firstTaskTimeout s"
  "lastUse (fst (getIdleValidConnection cfg now valid s)) = lastUse s"
  "boundSelf (fst (getIdleValidConnection cfg now valid s)) = boundSelf s"
  "connecting (fst (getIdleValidConnection cfg now valid s)) = connecting s"
  "pinging (fst (getIdleValidConnection cfg now valid s)) = pinging s"
  "found (fst (getIdleValidConnection cfg now valid s)) = found s"
  "notFound (fst (getIdleValidConnection cfg now valid s)) = notFound s"
  "querying (fst (getIdleValidConnection cfg now valid s)) = querying s"
  "rollingBack (fst (getIdleValidConnection cfg now valid s)) = rollingBack s"
  "ticks (fst (getIdleValidConnection cfg now valid s)) = ticks s"
  "nextConn (fst (getIdleValidConnection cfg now valid s)) = nextConn s"
  "nextPromise (fst (getIdleValidConnection cfg now valid s)) = nextPromise s"
  by (rule getIdle_cases[where s = s and cfg = cfg and now = now and valid = valid]; simp)+

lemma settleIdle_frame [simp]:
  "closed (settleIdle r x) = closed (fst x)"
  "connectionInCreation (settleIdle r x) = connectionInCreation (fst x)"
  "idleConnections (settleIdle r x) = idleConnections (fst x)"
  "activeConnections (settleIdle r x) = activeConnections (fst x)"
  "taskQueue (settleIdle r x) = taskQueue (fst x)"
  "firstTaskTimeout (settleIdle r x) = firstTaskTimeout (fst x)"
  "lastUse (settleIdle r x) = lastUse (fst x)"
  "boundSelf (settleIdle r x) = boundSelf (fst x)"
  "connecting (settleIdle r x) = connecting (fst x)"
  "querying (settleIdle r x) = querying (fst x)"
  "rollingBack (settleIdle r x) = rollingBack (fst x)"
  "ticks (settleIdle r x) = ticks (fst x)"
  "nextConn (settleIdle r x) = nextConn (fst x)"
  "nextPromise (settleIdle r x) = nextPromise (fst x)"
  "effects (settleIdle r x) = effects (fst x)"
  by (cases "(r, x)" rule: settleIdle.cases; simp)+

lemma errorScan_frame [simp]:
  "closed (errorScan c 0 s) = closed s"
  "connectionInCreation (errorScan c 0 s) = connectionInCreation s"
  "activeConnections (errorScan c 0 s) = activeConnections s"
  "taskQueue (errorScan c 0 s) = taskQueue s"
  "firstTaskTimeout (errorScan c 0 s) = firstTaskTimeout s"
  "boundSelf (errorScan c 0 s) = boundSelf s"
  "connecting (errorScan c 0 s) = connecting s"
  "pinging (errorScan c 0 s) = pinging s"
  "found (errorScan c 0 s) = found s"
  "notFound (errorScan c 0 s) = notFound s"
  "querying (errorScan c 0 s) = querying s"
  "rollingBack (errorScan c 0 s) = rollingBack s"
  "ticks (errorScan c 0 s) = ticks s"
  "nextConn (errorScan c 0 s) = nextConn s"
  "nextPromise (errorScan c 0 s) = nextPromise s"
  "effects (errorScan c 0 s) = effects s"
  "idleConnections (errorScan c 0 s) =
     takeWhile (\<lambda>x. x \<noteq> c) (idleConnections s) @ tl (dropWhile (\<lambda>x. x \<noteq> c) (idleConnections s))"
  by (simp_all add: errorScan_shape Let_def)

lemma rejectAndReset_cases:
  obtains (off) "\<not> atHead t s"
      "rejectAndResetTimeout now t s = (s\<lparr>firstTaskTimeout := None\<rparr>, Some assertionFailure)"
  | (head) ts where "taskQueue s = t # ts"
      "rejectAndResetTimeout now t s =
        (s\<lparr>taskQueue := dropWhile (expired now) ts,
           ticks := ticks s @ TickReject t timeoutError # rejections (takeWhile (expired now) ts),
           firstTaskTimeout := nextTimer now ts None\<rparr>, None)"
proof (cases "atHead t s")
  case False
  then show ?thesis using off by (simp add: rejectAndResetTimeout_def rejectTimeout_off_head)
next
  case True
  then obtain ts where q: "taskQueue s = t # ts"
    by (auto simp: atHead_def split: list.splits)
  then show ?thesis using head
    by (simp add: rejectAndResetTimeout_def rejectTimeout_front reset_shape)
qed

lemma rejectAndReset_frame [simp]:
  "closed (fst (rejectAndResetTimeout now t s)) = closed s"
  "connectionInCreation (fst (rejectAndResetTimeout now t s)) = connectionInCreation s"
  "idleConnections (fst (rejectAndResetTimeout now t s)) = idleConnections s"
  "activeConnections (fst (rejectAndResetTimeout now t s)) = activeConnections s"
  "lastUse (fst (rejectAndResetTimeout now t s)) = lastUse s"
  "boundSelf (fst (rejectAndResetTimeout now t s)) = boundSelf s"
  "connecting (fst (rejectAndResetTimeout now t s)) = connecting s"
  "pinging (fst (rejectAndResetTimeout now t s)) = pinging s"
  "found (fst (rejectAndResetTimeout now t s)) = found s"
  "notFound (fst (rejectAndResetTimeout now t s)) = notFound s"
  "querying (fst (rejectAndResetTimeout now t s)) = querying s"
  "rollingBack (fst (rejectAndResetTimeout now t s)) = rollingBack s"
  "nextConn (fst (rejectAndResetTimeout now t s)) = nextConn s"
  "nextPromise (fst (rejectAndResetTimeout now t s)) = nextPromise s"
  "effects (fst (rejectAndResetTimeout now t s)) = effects s"
  by (rule rejectAndReset_cases[where s = s and t = t and now = now]; simp)+

section \<open>Closed pool\<close>

lemma sessions_frame:
  "idleConnections s' = idleConnections s \<Longrightarrow> activeConnections s' = activeConnections s \<Longrightarrow>
   sessions s' = sessions s"
  by (simp add: sessions_def)

lemma sessions_handleTaskQueue: "sessions (fst (handleTaskQueue now s)) \<subseteq> sessions s"
  by (rule handleTaskQueue_cases[where s = s and now = now])
     (auto simp: served_def sessions_def)

lemma sessions_getIdle: "sessions (fst (getIdleValidConnection cfg now valid s)) \<subseteq> sessions s"
  by (rule getIdle_cases[where s = s and cfg = cfg and now = now and valid = valid])
     (auto simp: sessions_def)

lemma sessions_errorScan: "sessions (errorScan c 0 s) \<subseteq> sessions s"
proof -
  have "set (tl (dropWhile (\<lambda>x. x \<noteq> c) (idleConnections s))) \<subseteq> set (idleConnections s)"
    by (metis list.sel(2) list.set_sel(2) set_dropWhileD subsetI)
  moreover have "set (takeWhile (\<lambda>x. x \<noteq> c) (idleConnections s)) \<subseteq> set (idleConnections s)"
    by (metis set_takeWhileD subsetI)
  ultimately show ?thesis
    by (auto simp: sessions_def)
qed

lemma sessions_removeAll:
  "sessions (s\<lparr>activeConnections := removeAll c (activeConnections s)\<rparr>) \<subseteq> sessions s"
  by (auto simp: sessions_def)

lemma closed_step:
  assumes "closed s"
  shows "closed (step cfg e s) \<and> sessions (step cfg e s) \<subseteq> sessions s"
proof (cases e)
  case (GetConnection now valid)
  with assms show ?thesis by (simp add: getConnection_def handleRequest_def sessions_def Let_def)
next
  case (Query q v now valid)
  with assms show ?thesis by (simp add: query_def handleRequest_def sessions_def Let_def)
next
  case EndPool
  with assms show ?thesis by (simp add: endPool_def sessions_def Let_def)
next
  case ActivatePool
  with assms show ?thesis by (simp add: activatePool_def addConnectionToPool_def sessions_def)
next
  case (Continue p now)
  with assms show ?thesis
    by (auto simp: useConnection_def onNoIdle_def addConnectionToPool_def sessions_def Let_def
          split: option.splits prod.splits)
next
  case (ConnectDone c ok now)
  with assms show ?thesis
    by (auto simp: connectDone_def connectThen_def connectCatch_def sessions_def
          split: option.splits prod.splits)
next
  case (PingDone c ok now valid)
  show ?thesis
  proof (cases "map_of (pinging s) c")
    case None
    with PingDone assms show ?thesis by simp
  next
    case (Some r)
    let ?s1 = "s\<lparr>pinging := remove1 (c, r) (pinging s),
      activeConnections := removeAll c (activeConnections s)\<rparr>"
    have "sessions ?s1 \<subseteq> sessions s" by (auto simp: sessions_def)
    with sessions_getIdle[of cfg now valid ?s1]
    have "sessions (fst (getIdleValidConnection cfg now valid ?s1)) \<subseteq> sessions s" by blast
    with assms PingDone Some show ?thesis
      by (cases ok) (auto simp: pingDone_def sessions_def)
  qed
next
  case (QueryDone c res)
  with assms show ?thesis
    by (auto simp: queryDone_def wrappedEnd_def sessions_def Let_def split: option.splits sum.splits)
next
  case (RollbackDone c ok now)
  with assms show ?thesis
    by (auto simp: rollbackDone_def sessions_def Let_def)
next
  case (Release c)
  with assms show ?thesis by (simp add: wrappedEnd_def sessions_def)
next
  case (Destroy c)
  with assms show ?thesis
    by (auto simp: wrappedDestroy_def Let_def sessions_def)
next
  case (ConnError c)
  let ?s1 = "s\<lparr>activeConnections := removeAll c (activeConnections s)\<rparr>"
  have "sessions (errorScan c 0 ?s1) \<subseteq> sessions s"
    using sessions_errorScan[of c ?s1] sessions_removeAll[where s = s and c = c] by blast
  moreover have "sessions (step cfg e s) = sessions (errorScan c 0 ?s1)"
    using ConnError by (simp add: onError_def Let_def sessions_def)
  ultimately show ?thesis using ConnError assms
    by (simp add: onError_def Let_def)
next
  case (NextTick now)
  show ?thesis
  proof (cases "ticks s")
    case Nil
    with NextTick assms show ?thesis by simp
  next
    case (Cons k ks)
    have "sessions (s\<lparr>ticks := ks\<rparr>) = sessions s" by (simp add: sessions_def)
    with sessions_handleTaskQueue[of now "s\<lparr>ticks := ks\<rparr>"]
    have "sessions (uncaught (handleTaskQueue now (s\<lparr>ticks := ks\<rparr>))) \<subseteq> sessions s"
      by (simp add: sessions_def)
    with Cons NextTick assms show ?thesis
      by (cases k) (auto simp: addConnectionToPool_def sessions_def)
  qed
next
  case (TimerFire now)
  with assms show ?thesis
    by (auto simp: sessions_def split: option.splits)
qed

lemma closed_run:
  "closed s \<Longrightarrow> closed (run cfg es s) \<and> sessions (run cfg es s) \<subseteq> sessions s"
proof (induction es arbitrary: s)
  case Nil
  then show ?case by simp
next
  case (Cons e es)
  from closed_step[OF Cons.prems, of cfg e] Cons.IH[of "step cfg e s"]
  show ?case by auto
qed

section \<open>Promise accounting\<close>

lemma mset_map_remove1:
  "x \<in> set xs \<Longrightarrow> add_mset (f x) (mset (map f (remove1 x xs))) = mset (map f xs)"
  by (induction xs) auto

lemma mset_concat_remove1:
  "x \<in> set xs \<Longrightarrow> mset (f x) + mset (concat (map f (remove1 x xs))) = mset (concat (map f xs))"
  by (induction xs) auto

lemma tickPromise_rejections: "concat (map tickPromise (rejections q)) = map promise q"
  by (induction q) (simp_all add: rejections_def)

lemma mset_take_drop_While:
  "image_mset f (mset xs) =
     image_mset f (mset (takeWhile P xs)) + image_mset f (mset (dropWhile P xs))"
  by (metis image_mset_union mset_append takeWhile_dropWhile_id)

lemma effectPromise_rollbacks [simp]: "concat (map (effectPromise \<circ> CallRollback) cs) = []"
  by (induction cs) simp_all

lemma acct_alt:
  "acct s =
     mset (map promise (taskQueue s)) + mset (concat (map tickPromise (ticks s))) +
     mset (concat (map pingPromise (pinging s))) + mset (map (\<lambda>(c, r). fst r) (found s)) +
     mset (map fst (notFound s)) + mset (map snd (querying s)) +
     mset (concat (map effectPromise (effects s)))"
  by (simp add: acct_def allPromises_def promisesOf_def)

lemma acct_uncaught [simp]: "acct (uncaught r) = acct (fst r)"
  by (cases "snd r") (simp_all add: acct_alt)

lemma acct_checkPoolSize [simp]: "acct (fst (checkPoolSize cfg this s)) = acct s"
  by (rule checkPoolSize_cases[where s = s and cfg = cfg and this = this])
     (simp_all add: acct_alt)

lemma acct_handleTaskQueue: "acct (fst (handleTaskQueue now s)) \<subseteq># acct s"
proof (rule handleTaskQueue_cases[where s = s and now = now])
  assume "taskQueue s = []" "handleTaskQueue now s = (s\<lparr>firstTaskTimeout := None\<rparr>, None)"
  then show ?thesis by (simp add: acct_alt)
next
  fix t ts
  assume "taskQueue s = t # ts"
    "handleTaskQueue now s = (s\<lparr>firstTaskTimeout := None, taskQueue := ts\<rparr>, Some TypeError)"
  then show ?thesis by (simp add: acct_alt)
next
  fix t ts c cs
  assume "taskQueue s = t # ts"
    "handleTaskQueue now s =
         ((served now ts c cs s)\<lparr>effects := effects s @ [CallQuery c (sql t) (vals t)],
             querying := querying s @ [(c, promise t)]\<rparr>, None)"
  then show ?thesis
    using mset_take_drop_While[where f = promise and P = "expired now" and xs = ts]
    by (simp add: acct_alt served_def tickPromise_rejections)
next
  fix t ts c cs
  assume "taskQueue s = t # ts"
    "handleTaskQueue now s =
         ((served now ts c cs s)\<lparr>effects := effects s @ [Resolved (promise t) (Session c)]\<rparr>, None)"
  then show ?thesis
    using mset_take_drop_While[where f = promise and P = "expired now" and xs = ts]
    by (simp add: acct_alt served_def tickPromise_rejections)
qed

lemma acct_rejectAndReset [simp]: "acct (fst (rejectAndResetTimeout now t s)) = acct s"
proof (rule rejectAndReset_cases[where s = s and t = t and now = now])
  assume "rejectAndResetTimeout now t s = (s\<lparr>firstTaskTimeout := None\<rparr>, Some assertionFailure)"
  then show ?thesis by (simp add: acct_alt)
next
  fix ts
  assume "taskQueue s = t # ts"
    "rejectAndResetTimeout now t s =
        (s\<lparr>taskQueue := dropWhile (expired now) ts,
           ticks := ticks s @ TickReject t timeoutError # rejections (takeWhile (expired now) ts),
           firstTaskTimeout := nextTimer now ts None\<rparr>, None)"
  then show ?thesis
    using mset_take_drop_While[where f = promise and P = "expired now" and xs = ts]
    by (simp add: acct_alt tickPromise_rejections)
qed

lemma acct_getIdle [simp]: "acct (fst (getIdleValidConnection cfg now valid s)) = acct s"
  by (rule getIdle_cases[where s = s and cfg = cfg and now = now and valid = valid])
     (simp_all add: acct_alt)

lemma acct_settleIdle:
  "acct (settleIdle r x) =
     acct (fst x) + (case r of None \<Rightarrow> {#} | Some req \<Rightarrow> {#fst req#})"
  by (cases "(r, x)" rule: settleIdle.cases; cases r; simp add: acct_alt)

lemma acct_errorScan [simp]: "acct (errorScan c 0 s) = acct s"
  by (simp add: acct_alt)

lemma acct_addConnectionToPool [simp]: "acct (addConnectionToPool p s) = acct s"
  by (simp add: addConnectionToPool_def acct_alt)

lemma acct_wrappedEnd [simp]: "acct (wrappedEnd c s) = acct s"
  by (simp add: wrappedEnd_def acct_alt)

lemma acct_useConnection: "acct (useConnection c (p, q, v) s) = add_mset p (acct s)"
  by (simp add: useConnection_def acct_alt)

lemma acct_onNoIdle: "acct (onNoIdle cfg now (p, q, v) s) = add_mset p (acct s)"
  by (simp add: onNoIdle_def Let_def acct_alt addConnectionToPool_def split: option.splits)

lemma acct_queryDone: "acct (queryDone c p res s) = add_mset p (acct s)"
  by (cases res) (simp_all add: queryDone_def Let_def wrappedEnd_def acct_alt)

lemma acct_take_found:
  "(c, r) \<in> set (found s) \<Longrightarrow>
   add_mset (fst r) (acct (s\<lparr>found := remove1 (c, r) (found s)\<rparr>)) = acct s"
  using mset_map_remove1[of "(c, r)" "found s" "\<lambda>(c, r). fst r"]
  by (simp add: acct_alt del: mset_remove1 mset_map)

lemma acct_take_notFound:
  "r \<in> set (notFound s) \<Longrightarrow>
   add_mset (fst r) (acct (s\<lparr>notFound := remove1 r (notFound s)\<rparr>)) = acct s"
  using mset_map_remove1[of r "notFound s" fst]
  by (simp add: acct_alt del: mset_remove1 mset_map)

lemma acct_take_querying:
  "(c, p) \<in> set (querying s) \<Longrightarrow>
   add_mset p (acct (s\<lparr>querying := remove1 (c, p) (querying s)\<rparr>)) = acct s"
  using mset_map_remove1[of "(c, p)" "querying s" snd]
  by (simp add: acct_alt del: mset_remove1 mset_map)

lemma acct_take_pinging:
  "(c, r) \<in> set (pinging s) \<Longrightarrow>
   acct (s\<lparr>pinging := remove1 (c, r) (pinging s)\<rparr>) +
     (case r of None \<Rightarrow> {#} | Some req \<Rightarrow> {#fst req#}) = acct s"
  using mset_concat_remove1[of "(c, r)" "pinging s" pingPromise]
  by (cases r) (simp_all add: acct_alt del: mset_remove1)

lemma acct_take_tick:
  "ticks s = k # ks \<Longrightarrow> acct (s\<lparr>ticks := ks\<rparr>) + mset (tickPromise k) = acct s"
  by (simp add: acct_alt)

lemma acct_frame:
  "taskQueue s' = taskQueue s \<Longrightarrow> ticks s' = ticks s \<Longrightarrow> pinging s' = pinging s \<Longrightarrow>
   found s' = found s \<Longrightarrow> notFound s' = notFound s \<Longrightarrow> querying s' = querying s \<Longrightarrow>
   effects s' = effects s \<Longrightarrow> acct s' = acct s"
  by (simp add: acct_alt)

lemma fresh_same: "nextPromise s' = nextPromise s \<Longrightarrow> fresh s s' = {#}"
  by (simp add: fresh_def)

lemma fresh_Suc: "nextPromise s' = Suc (nextPromise s) \<Longrightarrow> fresh s s' = {#nextPromise s#}"
  by (simp add: fresh_def)

lemma acct_handleRequest:
  "acct (handleRequest cfg q v now valid s) = add_mset (nextPromise s) (acct s) \<and>
   nextPromise (handleRequest cfg q v now valid s) = Suc (nextPromise s)"
proof (cases "closed s")
  case True
  then show ?thesis by (simp add: handleRequest_def Let_def acct_alt)
next
  case False
  have "acct (s\<lparr>nextPromise := Suc (nextPromise s)\<rparr>) = acct s"
    by (rule acct_frame) simp_all
  with False show ?thesis
    by (simp add: handleRequest_def Let_def acct_settleIdle)
qed

lemma acct_endPool:
  "acct (endPool cfg s) \<subseteq># add_mset (nextPromise s) (acct s) \<and>
   nextPromise (endPool cfg s) = Suc (nextPromise s)"
  by (simp add: endPool_def Let_def drainIdle_shape acct_alt)

lemma acct_continue:
  "acct (step cfg (Continue p now) s) = acct s \<and>
   nextPromise (step cfg (Continue p now) s) = nextPromise s"
proof (cases "find (\<lambda>(c, r). fst r = p) (found s)")
  case (Some cr)
  obtain c p' q v where cr: "cr = (c, (p', q, v))" by (cases cr) auto
  from Some cr have "(c, (p', q, v)) \<in> set (found s)"
    by (auto simp: find_Some_iff in_set_conv_nth)
  from acct_take_found[OF this] Some cr show ?thesis
    by (simp add: acct_useConnection) (simp add: useConnection_def)
next
  case None
  show ?thesis
  proof (cases "find (\<lambda>r. fst r = p) (notFound s)")
    case n: None
    with None show ?thesis by simp
  next
    case (Some r)
    obtain p' q v where r: "r = (p', q, v)" by (cases r)
    from Some have "r \<in> set (notFound s)"
      by (auto simp: find_Some_iff in_set_conv_nth)
    from acct_take_notFound[OF this] Some None r show ?thesis
      by (simp add: acct_onNoIdle)
         (simp add: onNoIdle_def Let_def addConnectionToPool_def split: option.splits)
  qed
qed

lemma overlayNewConnection_alt:
  "overlayNewConnection cfg now conn self s =
     (let r = checkPoolSize cfg self
                (s\<lparr>idleConnections := idleConnections s @ [conn],
                   lastUse := (lastUse s)(conn := now),
                   boundSelf := (boundSelf s)(conn := self),
                   connectionInCreation := False\<rparr>) in
      case snd r of
        Some e \<Rightarrow> (fst r, Some e)
      | None \<Rightarrow> handleTaskQueue now (fst r))"
  by (simp add: overlayNewConnection_def Let_def split: prod.splits option.splits)

lemma connectDone_alt:
  "connectDone cfg conn p ok now s =
     (if \<not> ok then uncaught (connectCatch cfg p s)
      else if useCallback cfg then uncaught (connectThen cfg now conn p s)
      else (case snd (connectThen cfg now conn p s) of
              None \<Rightarrow> fst (connectThen cfg now conn p s)
            | Some e \<Rightarrow> uncaught (connectCatch cfg p (fst (connectThen cfg now conn p s)))))"
  by (simp add: connectDone_def split: prod.splits option.splits)

lemma acct_connectThen:
  "acct (fst (connectThen cfg now c p s)) \<subseteq># acct s \<and>
   nextPromise (fst (connectThen cfg now c p s)) = nextPromise s"
proof (cases "closed s")
  case True
  then show ?thesis by (simp add: connectThen_def acct_alt)
next
  case False
  let ?s1 = "s\<lparr>idleConnections := idleConnections s @ [c],
                  lastUse := (lastUse s)(c := now),
                  boundSelf := (boundSelf s)(c := p),
                  connectionInCreation := False\<rparr>"
  have a1: "acct ?s1 = acct s" by (rule acct_frame) simp_all
  have "acct (fst (overlayNewConnection cfg now c p s)) \<subseteq># acct ?s1 \<and>
    nextPromise (fst (overlayNewConnection cfg now c p s)) = nextPromise s"
    using acct_handleTaskQueue[of now "fst (checkPoolSize cfg p ?s1)"]
    by (cases "snd (checkPoolSize cfg p ?s1)")
       (simp_all add: overlayNewConnection_alt Let_def)
  with a1 False show ?thesis by (simp add: connectThen_def)
qed

lemma acct_connectCatch:
  "acct (fst (connectCatch cfg p s)) = acct s \<and>
   nextPromise (fst (connectCatch cfg p s)) = nextPromise s"
proof -
  have "acct (s\<lparr>connectionInCreation := False\<rparr>) = acct s" by (rule acct_frame) simp_all
  then show ?thesis by (simp add: connectCatch_def)
qed

lemma acct_connectDone:
  "acct (connectDone cfg c p ok now s) \<subseteq># acct s \<and>
   nextPromise (connectDone cfg c p ok now s) = nextPromise s"
  using acct_connectThen[of cfg now c p s] acct_connectCatch[of cfg p s]
    acct_connectCatch[of cfg p "fst (connectThen cfg now c p s)"]
  by (cases "snd (connectThen cfg now c p s)") (simp_all add: connectDone_alt)

lemma acct_pingDone:
  "acct (pingDone cfg c r ok now valid s) \<subseteq>#
     acct s + (case r of None \<Rightarrow> {#} | Some req \<Rightarrow> {#fst req#}) \<and>
   nextPromise (pingDone cfg c r ok now valid s) = nextPromise s"
proof -
  have "acct (s\<lparr>activeConnections := removeAll c (activeConnections s)\<rparr>) = acct s"
    by (rule acct_frame) simp_all
  then show ?thesis
    by (cases r) (simp_all add: pingDone_def acct_settleIdle del: settleIdle.simps)
qed

lemma acct_rollbackDone:
  "acct (fst (rollbackDone cfg c ok now s)) = acct s \<and>
   nextPromise (fst (rollbackDone cfg c ok now s)) = nextPromise s"
  by (simp add: rollbackDone_def Let_def) (simp add: acct_alt)

lemma acct_step:
  "acct (step cfg e s) \<subseteq># acct s + fresh s (step cfg e s) \<and>
   nextPromise s \<le> nextPromise (step cfg e s)"
proof (cases e)
  case (GetConnection now valid)
  with acct_handleRequest[of cfg None "[]" now valid s] show ?thesis
    by (simp add: getConnection_def fresh_Suc)
next
  case (Query q v now valid)
  with acct_handleRequest[of cfg "Some q" v now valid s] show ?thesis
    by (simp add: query_def fresh_Suc)
next
  case EndPool
  with acct_endPool[of cfg s] show ?thesis
    by (simp add: fresh_Suc)
next
  case ActivatePool
  then show ?thesis
    by (simp add: activatePool_def fresh_same) (simp add: addConnectionToPool_def)
next
  case (Continue p now)
  with acct_continue[of cfg p now s] show ?thesis
    by (simp add: fresh_same)
next
  case (ConnectDone c ok now)
  show ?thesis
  proof (cases "map_of (connecting s) c")
    case None
    with ConnectDone show ?thesis by (simp add: fresh_same)
  next
    case (Some p)
    let ?s0 = "s\<lparr>connecting := remove1 (c, p) (connecting s)\<rparr>"
    have "acct ?s0 = acct s" by (rule acct_frame) simp_all
    with acct_connectDone[of cfg c p ok now ?s0] ConnectDone Some show ?thesis
      by (simp add: fresh_same)
  qed
next
  case (PingDone c ok now valid)
  show ?thesis
  proof (cases "map_of (pinging s) c")
    case None
    with PingDone show ?thesis by (simp add: fresh_same)
  next
    case (Some r)
    then have "(c, r) \<in> set (pinging s)" by (rule map_of_SomeD)
    from acct_take_pinging[OF this]
      acct_pingDone[of cfg c r ok now valid "s\<lparr>pinging := remove1 (c, r) (pinging s)\<rparr>"]
      PingDone Some
    show ?thesis by (simp add: fresh_same)
  qed
next
  case (QueryDone c res)
  show ?thesis
  proof (cases "map_of (querying s) c")
    case None
    with QueryDone show ?thesis by (simp add: fresh_same)
  next
    case (Some p)
    then have "(c, p) \<in> set (querying s)" by (rule map_of_SomeD)
    from acct_take_querying[OF this] QueryDone Some show ?thesis
      by (simp add: acct_queryDone fresh_same)
         (simp add: queryDone_def Let_def wrappedEnd_def split: sum.splits)
  qed
next
  case (RollbackDone c ok now)
  have "acct (s\<lparr>rollingBack := remove1 c (rollingBack s)\<rparr>) = acct s"
    by (rule acct_frame) simp_all
  with RollbackDone acct_rollbackDone[of cfg c ok now "s\<lparr>rollingBack := remove1 c (rollingBack s)\<rparr>"]
  show ?thesis by (simp add: fresh_same)
next
  case (Release c)
  then show ?thesis by (simp add: fresh_same) (simp add: wrappedEnd_def)
next
  case (Destroy c)
  then show ?thesis
    by (simp add: wrappedDestroy_def Let_def fresh_same) (simp add: acct_alt)
next
  case (ConnError c)
  have "acct (s\<lparr>activeConnections := removeAll c (activeConnections s)\<rparr>) = acct s"
    by (rule acct_frame) simp_all
  with ConnError show ?thesis
    by (simp add: onError_def Let_def fresh_same)
next
  case (NextTick now)
  show ?thesis
  proof (cases "ticks s")
    case Nil
    with NextTick show ?thesis by (simp add: fresh_same)
  next
    case (Cons k ks)
    note a = acct_take_tick[OF Cons]
    show ?thesis
    proof (cases k)
      case (TickAddConnection p)
      with NextTick Cons a show ?thesis
        by (simp add: fresh_same) (simp add: addConnectionToPool_def)
    next
      case TickHandleTaskQueue
      with NextTick Cons a acct_handleTaskQueue[of now "s\<lparr>ticks := ks\<rparr>"] show ?thesis
        by (simp add: fresh_same)
    next
      case (TickReject t e)
      with NextTick Cons show ?thesis by (simp add: fresh_same acct_alt)
    qed
  qed
next
  case (TimerFire now)
  then show ?thesis by (simp add: fresh_same split: option.splits)
qed

lemma promisesOk_alt: "promisesOk s \<longleftrightarrow> acct s \<subseteq># mset [0..<nextPromise s]"
proof
  assume "promisesOk s"
  then have d: "distinct (allPromises s)" and b: "set (allPromises s) \<subseteq> {0..<nextPromise s}"
    by (auto simp: promisesOk_def list_all_iff)
  from d have "acct s = mset_set (set (allPromises s))"
    by (simp add: acct_def mset_set_set)
  also from b have "\<dots> \<subseteq># mset_set {0..<nextPromise s}"
    by (rule subset_imp_msubset_mset_set) simp
  finally show "acct s \<subseteq># mset [0..<nextPromise s]" by simp
next
  assume a: "acct s \<subseteq># mset [0..<nextPromise s]"
  have "count (mset (allPromises s)) p \<le> 1" for p
  proof -
    from a have "count (acct s) p \<le> count (mset [0..<nextPromise s]) p"
      by (rule mset_subset_eq_count)
    also have "\<dots> \<le> 1"
      using distinct_count_atmost_1[of "[0..<nextPromise s]"] by (auto split: if_splits)
    finally show ?thesis by (simp add: acct_def)
  qed
  then have "count (mset (allPromises s)) p = (if p \<in> set (allPromises s) then 1 else 0)" for p
    using count_mset_0_iff[of "allPromises s" p]
    by (cases "count (mset (allPromises s)) p = 0") (auto simp: le_Suc_eq)
  then have "distinct (allPromises s)"
    by (simp add: distinct_count_atmost_1)
  moreover from a have "set_mset (acct s) \<subseteq> set_mset (mset [0..<nextPromise s])"
    by (rule set_mset_mono)
  then have "set (allPromises s) \<subseteq> set [0..<nextPromise s]"
    by (simp add: acct_def)
  ultimately show "promisesOk s"
    by (auto simp: promisesOk_def list_all_iff)
qed

lemma promisesOk_step: "promisesOk s \<Longrightarrow> promisesOk (step cfg e s)"
proof -
  assume "promisesOk s"
  then have a: "acct s \<subseteq># mset [0..<nextPromise s]" by (simp add: promisesOk_alt)
  from acct_step[of cfg e s]
  have st: "acct (step cfg e s) \<subseteq># acct s + fresh s (step cfg e s)"
    and le: "nextPromise s \<le> nextPromise (step cfg e s)" by simp_all
  from le obtain k where k: "nextPromise (step cfg e s) = nextPromise s + k"
    by (auto simp: le_iff_add)
  have "[0..<nextPromise s + k] = [0..<nextPromise s] @ [nextPromise s..<nextPromise s + k]"
    by (rule upt_add_eq_append) simp
  with k have e: "mset [0..<nextPromise (step cfg e s)] =
      mset [0..<nextPromise s] + fresh s (step cfg e s)"
    by (simp add: fresh_def)
  from a have "acct s + fresh s (step cfg e s) \<subseteq>#
      mset [0..<nextPromise s] + fresh s (step cfg e s)"
    by (rule subset_mset.add_right_mono)
  with st have "acct (step cfg e s) \<subseteq># mset [0..<nextPromise s] + fresh s (step cfg e s)"
    by (rule subset_mset.order_trans)
  then have "acct (step cfg e s) \<subseteq># mset [0..<nextPromise (step cfg e s)]"
    by (simp only: e)
  then show ?thesis by (simp only: promisesOk_alt)
qed

lemma promisesOk_run: "promisesOk s \<Longrightarrow> promisesOk (run cfg es s)"
  by (induction es arbitrary: s) (simp_all add: promisesOk_step)

lemma promisesOk_initial: "promisesOk initial"
  by (simp add: promisesOk_def allPromises_def promisesOf_def initial_def)

lemma absent_step:
  assumes "p \<notin># acct s" and "p < nextPromise s"
  shows "p \<notin># acct (step cfg e s) \<and> p < nextPromise (step cfg e s)"
proof -
  from acct_step[of cfg e s]
  have st: "acct (step cfg e s) \<subseteq># acct s + fresh s (step cfg e s)"
    and le: "nextPromise s \<le> nextPromise (step cfg e s)" by simp_all
  from assms(2) have "p \<notin># fresh s (step cfg e s)" by (simp add: fresh_def)
  with assms(1) have n: "p \<notin># acct s + fresh s (step cfg e s)" by simp
  have "p \<notin># acct (step cfg e s)"
  proof
    assume "p \<in># acct (step cfg e s)"
    with st have "p \<in># acct s + fresh s (step cfg e s)" by (rule mset_subset_eqD)
    with n show False ..
  qed
  moreover from le assms(2) have "p < nextPromise (step cfg e s)" by (rule less_le_trans[rotated])
  ultimately show ?thesis ..
qed

lemma absent_run:
  "p \<notin># acct s \<Longrightarrow> p < nextPromise s \<Longrightarrow> p \<notin># acct (run cfg es s)"
proof (induction es arbitrary: s)
  case Nil
  then show ?case by simp
next
  case (Cons e es)
  from absent_step[OF Cons.prems, of cfg e]
  have a: "p \<notin># acct (step cfg e s)" and b: "p < nextPromise (step cfg e s)" by blast+
  from Cons.IH[OF a b] show ?case by simp
qed

lemma settles_effectPromise: "settles p e \<Longrightarrow> p \<in> set (effectPromise e)"
  by (cases e) auto

lemma absent_unsettled: "p \<notin># acct s \<Longrightarrow> settlements p s = []"
proof -
  assume a: "p \<notin># acct s"
  have "\<not> settles p e" if "e \<in> set (effects s)" for e
  proof
    assume "settles p e"
    then have "p \<in> set (effectPromise e)" by (rule settles_effectPromise)
    with that have "p \<in> set (allPromises s)" by (auto simp: allPromises_def)
    with a show False by (simp add: acct_def)
  qed
  then show ?thesis by (simp add: settlements_def filter_empty_conv)
qed

lemma acct_endPool_open:
  "\<not> closed s \<Longrightarrow>
   acct (endPool cfg s) + image_mset promise (mset (taskQueue s)) = add_mset (nextPromise s) (acct s)"
  by (simp add: endPool_def Let_def drainIdle_shape acct_alt)

lemma discarded_never_settles:
  assumes ok: "promisesOk s" and op: "\<not> closed s" and t: "t \<in> set (taskQueue s)"
  shows "settlements (promise t) (run cfg es (endPool cfg s)) = []"
proof -
  let ?p = "promise t"
  from t have q: "?p \<in># image_mset promise (mset (taskQueue s))" by simp
  from t have "?p \<in> set (allPromises s)"
    by (simp add: allPromises_def promisesOf_def)
  with ok have lt: "?p < nextPromise s"
    by (simp add: promisesOk_def list_all_iff)
  from ok have "distinct (allPromises s)" by (simp add: promisesOk_def)
  then have c1: "count (acct s) ?p \<le> 1"
    by (simp add: distinct_count_atmost_1 acct_def)
  from q have c2: "1 \<le> count (image_mset promise (mset (taskQueue s))) ?p"
    by (simp only: count_greater_eq_one_iff)
  have "count (acct (endPool cfg s) + image_mset promise (mset (taskQueue s))) ?p =
      count (add_mset (nextPromise s) (acct s)) ?p"
    by (simp only: acct_endPool_open[OF op])
  then have c3: "count (acct (endPool cfg s)) ?p + count (image_mset promise (mset (taskQueue s))) ?p =
      count (acct s) ?p"
    using lt by simp
  from c1 c2 c3 have "count (acct (endPool cfg s)) ?p = 0" by linarith
  then have "?p \<notin># acct (endPool cfg s)" by (simp add: count_eq_zero_iff)
  moreover have "?p < nextPromise (endPool cfg s)" using lt by (simp add: endPool_def Let_def drainIdle_shape)
  ultimately have "?p \<notin># acct (run cfg es (endPool cfg s))" by (rule absent_run)
  then show ?thesis by (rule absent_unsettled)
qed

section \<open>Capacity\<close>

lemma capOk_mono:
  "capOk cfg s \<Longrightarrow> totalConnections s' \<le> totalConnections s \<Longrightarrow> creations s' = creations s \<Longrightarrow>
   connectionInCreation s' = connectionInCreation s \<Longrightarrow> capOk cfg s'"
  by (simp add: capOk_def)

lemma isAdd_rejections [simp]: "filter isAdd (rejections q) = []"
  by (induction q) (simp_all add: rejections_def)

lemma length_insert_le: "length (List.insert c A) \<le> Suc (length A)"
  by (simp add: List.insert_def)

lemma cap_uncaught [simp]: "capOk cfg (uncaught r) = capOk cfg (fst r)"
  by (simp add: capOk_def totalConnections_def activeCount_def idleCount_def creations_def)

lemma creations_uncaught [simp]: "creations (uncaught r) = creations (fst r)"
  by (simp add: creations_def)

lemma total_uncaught [simp]: "totalConnections (uncaught r) = totalConnections (fst r)"
  by (simp add: totalConnections_def activeCount_def idleCount_def)

lemma total_checkPoolSize [simp]:
  "totalConnections (fst (checkPoolSize cfg this s)) = totalConnections s"
  by (simp add: totalConnections_def activeCount_def idleCount_def)

lemma cap_checkPoolSize: "capOk cfg s \<Longrightarrow> capOk cfg (fst (checkPoolSize cfg this s))"
  by (rule checkPoolSize_cases[where s = s and cfg = cfg and this = this])
     (auto simp: capOk_def totalConnections_def activeCount_def idleCount_def creations_def)

lemma creations_checkPoolSize_throw:
  "snd (checkPoolSize cfg this s) \<noteq> None \<Longrightarrow> fst (checkPoolSize cfg this s) = s"
  by (rule checkPoolSize_cases[where s = s and cfg = cfg and this = this]) auto

lemma cap_handleTaskQueue:
  "totalConnections (fst (handleTaskQueue now s)) \<le> totalConnections s \<and>
   creations (fst (handleTaskQueue now s)) = creations s"
  using length_insert_le
  by (rule_tac handleTaskQueue_cases[where s = s and now = now])
     (auto simp: served_def totalConnections_def activeCount_def idleCount_def creations_def)

lemma handleTaskQueue_ok: "idleConnections s \<noteq> [] \<Longrightarrow> snd (handleTaskQueue now s) = None"
  by (rule handleTaskQueue_cases[where s = s and now = now]) auto

lemma cap_getIdle:
  "totalConnections (fst (getIdleValidConnection cfg now valid s)) \<le> totalConnections s \<and>
   creations (fst (getIdleValidConnection cfg now valid s)) = creations s"
proof -
  have f: "length (filter P A) \<le> length A" for P and A :: "nat list" by simp
  have i: "length (List.insert c (filter P A)) \<le> Suc (length A)" for c P and A :: "nat list"
    using length_insert_le[of c "filter P A"] f[of P A] by linarith
  show ?thesis
    by (rule getIdle_cases[where s = s and cfg = cfg and now = now and valid = valid])
       (auto simp: totalConnections_def activeCount_def idleCount_def creations_def
          intro: le_trans[OF f] le_trans[OF i] add_le_mono)
qed

lemma cap_errorScan:
  "totalConnections (errorScan c 0 s) \<le> totalConnections s \<and>
   creations (errorScan c 0 s) = creations s"
proof -
  have "length (takeWhile (\<lambda>x. x \<noteq> c) xs @ tl (dropWhile (\<lambda>x. x \<noteq> c) xs)) \<le> length xs"
    for xs :: "nat list"
  proof -
    have "length (takeWhile (\<lambda>x. x \<noteq> c) xs) + length (dropWhile (\<lambda>x. x \<noteq> c) xs) = length xs"
      by (metis length_append takeWhile_dropWhile_id)
    then show ?thesis by simp
  qed
  then show ?thesis
    by (simp add: totalConnections_def activeCount_def idleCount_def creations_def)
qed

lemma cap_rejectAndReset:
  "totalConnections (fst (rejectAndResetTimeout now t s)) = totalConnections s \<and>
   creations (fst (rejectAndResetTimeout now t s)) = creations s"
  by (rule rejectAndReset_cases[where s = s and t = t and now = now])
     (auto simp: totalConnections_def activeCount_def idleCount_def creations_def)

lemma cap_settleIdle:
  "totalConnections (settleIdle r x) = totalConnections (fst x) \<and>
   creations (settleIdle r x) = creations (fst x)"
  by (simp add: totalConnections_def activeCount_def idleCount_def creations_def)

lemma cap_removeAll:
  assumes "capOk cfg s"
  shows "capOk cfg (s\<lparr>activeConnections := removeAll c (activeConnections s)\<rparr>)"
  by (rule capOk_mono[OF assms])
     (simp_all add: totalConnections_def activeCount_def idleCount_def creations_def)

lemma cap_effects [simp]: "capOk cfg (s\<lparr>effects := x\<rparr>) = capOk cfg s"
  by (simp add: capOk_def totalConnections_def activeCount_def idleCount_def creations_def)

lemma cap_handleRequest: "capOk cfg s \<Longrightarrow> capOk cfg (handleRequest cfg q v now valid s)"
proof -
  assume a: "capOk cfg s"
  let ?s0 = "s\<lparr>nextPromise := Suc (nextPromise s)\<rparr>"
  from a have a0: "capOk cfg ?s0"
    by (simp add: capOk_def totalConnections_def activeCount_def idleCount_def creations_def)
  show ?thesis
  proof (cases "closed s")
    case True
    with a0 show ?thesis by (simp add: handleRequest_def Let_def)
  next
    case False
    from cap_getIdle[of cfg now valid ?s0] a0
    have "capOk cfg (settleIdle (Some (nextPromise s, q, v)) (getIdleValidConnection cfg now valid ?s0))"
      by (intro capOk_mono[OF a0]) (simp_all add: cap_settleIdle)
    with False show ?thesis by (simp add: handleRequest_def Let_def)
  qed
qed

lemma cap_addConnection:
  "\<not> connectionInCreation s \<Longrightarrow> int (totalConnections s) < connectionLimit cfg \<Longrightarrow>
   capOk cfg s \<Longrightarrow> capOk cfg (addConnectionToPool p s)"
  by (auto simp: capOk_def addConnectionToPool_def totalConnections_def activeCount_def
        idleCount_def creations_def)

lemma cap_continue: "capOk cfg s \<Longrightarrow> capOk cfg (step cfg (Continue p now) s)"
proof -
  assume a: "capOk cfg s"
  have u: "capOk cfg (useConnection c r s')" if "capOk cfg s'" for c r s'
    using that by (cases r)
      (simp add: useConnection_def capOk_def totalConnections_def activeCount_def idleCount_def
         creations_def)
  have n: "capOk cfg (onNoIdle cfg now r s')" if h: "capOk cfg s'" for r s'
  proof (cases "\<not> connectionInCreation s' \<and> connectionLimit cfg > int (totalConnections s')")
    case True
    with h have "capOk cfg (addConnectionToPool False s')" by (simp add: cap_addConnection)
    then have "capOk cfg (addConnectionToPool False s'\<lparr>firstTaskTimeout := x, taskQueue := y\<rparr>)"
      and "capOk cfg (addConnectionToPool False s'\<lparr>taskQueue := y\<rparr>)" for x y
      by (simp_all add: capOk_def totalConnections_def activeCount_def idleCount_def creations_def)
    with True show ?thesis
      by (cases r) (simp add: onNoIdle_def Let_def split: option.splits)
  next
    case False
    from h have "capOk cfg (s'\<lparr>firstTaskTimeout := x, taskQueue := y\<rparr>)"
      and "capOk cfg (s'\<lparr>taskQueue := y\<rparr>)" for x y
      by (simp_all add: capOk_def totalConnections_def activeCount_def idleCount_def creations_def)
    with False show ?thesis
      by (cases r) (auto simp: onNoIdle_def Let_def split: option.splits)
  qed
  have f: "capOk cfg (s\<lparr>found := x\<rparr>)" for x
    using a by (simp add: capOk_def totalConnections_def activeCount_def idleCount_def creations_def)
  have g: "capOk cfg (s\<lparr>notFound := x\<rparr>)" for x
    using a by (simp add: capOk_def totalConnections_def activeCount_def idleCount_def creations_def)
  from a u f n g show ?thesis
    by (auto split: option.splits)
qed

lemma cap_connectThen:
  assumes "int (totalConnections s) < connectionLimit cfg" and "creations s = 0"
  shows "capOk cfg (fst (connectThen cfg now c p s)) \<and>
     (snd (connectThen cfg now c p s) \<noteq> None \<longrightarrow> creations (fst (connectThen cfg now c p s)) = 0)"
proof (cases "closed s")
  case True
  with assms show ?thesis
    by (simp add: connectThen_def capOk_def totalConnections_def activeCount_def idleCount_def
          creations_def)
next
  case False
  let ?s1 = "s\<lparr>idleConnections := idleConnections s @ [c],
                  lastUse := (lastUse s)(c := now),
                  boundSelf := (boundSelf s)(c := p),
                  connectionInCreation := False\<rparr>"
  let ?r = "checkPoolSize cfg p ?s1"
  from assms have c1: "capOk cfg ?s1" and z: "creations ?s1 = 0"
    by (simp_all add: capOk_def totalConnections_def activeCount_def idleCount_def creations_def)
  then have c2: "capOk cfg (fst ?r)" by (simp add: cap_checkPoolSize)
  show ?thesis
  proof (cases "snd ?r")
    case (Some e)
    then have "fst ?r = ?s1" by (simp add: creations_checkPoolSize_throw)
    with Some c1 z False show ?thesis
      by (simp add: connectThen_def overlayNewConnection_alt Let_def)
  next
    case None
    have "idleConnections (fst ?r) \<noteq> []" by simp
    then have ok: "snd (handleTaskQueue now (fst ?r)) = None" by (rule handleTaskQueue_ok)
    from cap_handleTaskQueue[of now "fst ?r"] c2
    have "capOk cfg (fst (handleTaskQueue now (fst ?r)))"
      by (intro capOk_mono[OF c2]) simp_all
    with None ok False show ?thesis
      by (simp add: connectThen_def overlayNewConnection_alt Let_def)
  qed
qed

lemma cap_connectCatch:
  "capOk cfg s \<Longrightarrow> creations s = 0 \<Longrightarrow> capOk cfg (fst (connectCatch cfg p s))"
proof -
  assume "capOk cfg s" "creations s = 0"
  then have "capOk cfg (s\<lparr>connectionInCreation := False\<rparr>)"
    by (simp add: capOk_def totalConnections_def activeCount_def idleCount_def creations_def)
  then show ?thesis by (simp add: connectCatch_def cap_checkPoolSize)
qed

lemma cap_connectDone:
  assumes "int (totalConnections s) < connectionLimit cfg" and "creations s = 0"
  shows "capOk cfg (connectDone cfg c p ok now s)"
proof -
  from assms have a: "capOk cfg s" by (simp add: capOk_def)
  note t = cap_connectThen[OF assms, of now c p]
  show ?thesis
  proof (cases "snd (connectThen cfg now c p s)")
    case None
    with t a assms(2) show ?thesis
      by (simp add: connectDone_alt cap_connectCatch)
  next
    case (Some e)
    with t a assms(2) show ?thesis
      by (simp add: connectDone_alt cap_connectCatch)
  qed
qed

lemma cap_step:
  assumes a: "capOk cfg s" and d: "admissible cfg s e"
  shows "capOk cfg (step cfg e s)"
proof (cases e)
  case (GetConnection now valid)
  with a show ?thesis by (simp add: getConnection_def cap_handleRequest)
next
  case (Query q v now valid)
  with a show ?thesis by (simp add: query_def cap_handleRequest)
next
  case EndPool
  with a show ?thesis
    by (auto simp: endPool_def Let_def drainIdle_shape capOk_def totalConnections_def
          activeCount_def idleCount_def creations_def)
next
  case ActivatePool
  with a d show ?thesis by (simp add: activatePool_def cap_addConnection)
next
  case (Continue p now)
  from cap_continue[OF a, of p now] Continue show ?thesis by simp
next
  case (ConnectDone c ok now)
  show ?thesis
  proof (cases "map_of (connecting s) c")
    case None
    with ConnectDone a show ?thesis by simp
  next
    case (Some p)
    then have m: "(c, p) \<in> set (connecting s)" by (rule map_of_SomeD)
    let ?s0 = "s\<lparr>connecting := remove1 (c, p) (connecting s)\<rparr>"
    from m have l: "length (connecting s) = Suc (length (remove1 (c, p) (connecting s)))"
      by (simp add: length_remove1) (metis Suc_pred length_pos_if_in_set)
    with a have "creations ?s0 = 0" and "int (totalConnections ?s0) < connectionLimit cfg"
      by (auto simp: capOk_def creations_def totalConnections_def activeCount_def idleCount_def)
    then have "capOk cfg (connectDone cfg c p ok now ?s0)"
      by (intro cap_connectDone)
    with ConnectDone Some show ?thesis by simp
  qed
next
  case (PingDone c ok now valid)
  show ?thesis
  proof (cases "map_of (pinging s) c")
    case None
    with PingDone a show ?thesis by simp
  next
    case (Some r)
    let ?s0 = "s\<lparr>pinging := remove1 (c, r) (pinging s)\<rparr>"
    from a have a0: "capOk cfg ?s0"
      by (simp add: capOk_def totalConnections_def activeCount_def idleCount_def creations_def)
    let ?s1 = "?s0\<lparr>activeConnections := removeAll c (activeConnections ?s0)\<rparr>"
    from a0 have a1: "capOk cfg ?s1" by (rule cap_removeAll)
    have "capOk cfg (settleIdle r' (getIdleValidConnection cfg now valid ?s1))" for r'
      using cap_getIdle[of cfg now valid ?s1]
      by (intro capOk_mono[OF a1]) (simp_all add: cap_settleIdle)
    moreover have "capOk cfg (settleIdle r (?s0, Valid c))"
      by (intro capOk_mono[OF a0]) (simp_all add: cap_settleIdle)
    ultimately show ?thesis using PingDone Some
      by (simp add: pingDone_def del: settleIdle.simps)
  qed
next
  case (QueryDone c res)
  with a show ?thesis
    by (auto simp: queryDone_def Let_def wrappedEnd_def capOk_def totalConnections_def
          activeCount_def idleCount_def creations_def split: option.splits sum.splits)
next
  case (RollbackDone c ok now)
  show ?thesis
  proof (cases "c \<in> set (rollingBack s)")
    case False
    with RollbackDone a show ?thesis by simp
  next
    case True
    let ?s0 = "s\<lparr>rollingBack := remove1 c (rollingBack s)\<rparr>"
    from a have a0: "capOk cfg ?s0"
      by (simp add: capOk_def totalConnections_def activeCount_def idleCount_def creations_def)
    have le: "length (removeAll c (activeConnections s)) \<le> length (activeConnections s)"
      by (simp add: removeAll_filter_not_eq)
    show ?thesis
    proof (cases ok)
      case False
      from a0 have "capOk cfg (?s0\<lparr>activeConnections := removeAll c (activeConnections ?s0)\<rparr>)"
        by (rule cap_removeAll)
      then have "capOk cfg (fst (rollbackDone cfg c False now ?s0))"
        by (simp add: rollbackDone_def Let_def cap_checkPoolSize)
      with RollbackDone True False show ?thesis by simp
    next
      case ok: True
      show ?thesis
      proof (cases "closed s")
        case c: True
        have "capOk cfg (fst (rollbackDone cfg c True now ?s0))"
          using c
          by (intro capOk_mono[OF a])
             (simp_all add: rollbackDone_def Let_def totalConnections_def activeCount_def
                idleCount_def creations_def)
        with RollbackDone True ok show ?thesis by simp
      next
        case c: False
        with d RollbackDone True ok have "c \<in> set (activeConnections s)" by auto
        then have "length (removeAll c (activeConnections s)) < length (activeConnections s)"
          by (rule length_removeAll_less)
        with a have "capOk cfg (fst (rollbackDone cfg c True now ?s0))"
          using c
          by (auto simp: rollbackDone_def Let_def capOk_def totalConnections_def activeCount_def
                idleCount_def creations_def)
        with RollbackDone True ok show ?thesis by simp
      qed
    qed
  qed
next
  case (Release c)
  with a show ?thesis
    by (simp add: wrappedEnd_def capOk_def totalConnections_def activeCount_def idleCount_def
          creations_def)
next
  case (Destroy c)
  from a have "capOk cfg (s\<lparr>activeConnections := removeAll c (activeConnections s)\<rparr>)"
    by (rule cap_removeAll)
  then have "capOk cfg (s\<lparr>activeConnections := removeAll c (activeConnections s),
      effects := effects s @ [CallDestroy c]\<rparr>)"
    by simp
  with Destroy show ?thesis
    by (simp add: wrappedDestroy_def Let_def cap_checkPoolSize)
next
  case (ConnError c)
  let ?s1 = "s\<lparr>activeConnections := removeAll c (activeConnections s)\<rparr>"
  from a have a1: "capOk cfg ?s1" by (rule cap_removeAll)
  from cap_errorScan[of c ?s1] have "capOk cfg (errorScan c 0 ?s1)"
    by (intro capOk_mono[OF a1]) simp_all
  with ConnError show ?thesis
    by (simp add: onError_def Let_def cap_checkPoolSize)
next
  case (NextTick now)
  show ?thesis
  proof (cases "ticks s")
    case Nil
    with NextTick a show ?thesis by simp
  next
    case (Cons k ks)
    show ?thesis
    proof (cases k)
      case (TickAddConnection p)
      with NextTick Cons a show ?thesis
        by (auto simp: addConnectionToPool_def capOk_def totalConnections_def activeCount_def
              idleCount_def creations_def)
    next
      case TickHandleTaskQueue
      with Cons a have a0: "capOk cfg (s\<lparr>ticks := ks\<rparr>)"
        by (simp add: capOk_def totalConnections_def activeCount_def idleCount_def creations_def)
      from cap_handleTaskQueue[of now "s\<lparr>ticks := ks\<rparr>"]
      have "capOk cfg (fst (handleTaskQueue now (s\<lparr>ticks := ks\<rparr>)))"
        by (intro capOk_mono[OF a0]) simp_all
      with NextTick Cons TickHandleTaskQueue show ?thesis by simp
    next
      case (TickReject t e)
      with NextTick Cons a show ?thesis
        by (simp add: capOk_def totalConnections_def activeCount_def idleCount_def creations_def)
    qed
  qed
next
  case (TimerFire now)
  show ?thesis
  proof (cases "firstTaskTimeout s")
    case None
    with TimerFire a show ?thesis by simp
  next
    case (Some tm)
    from cap_rejectAndReset[of now "target tm" s]
    have "capOk cfg (fst (rejectAndResetTimeout now (target tm) s))"
      by (intro capOk_mono[OF a]) simp_all
    with TimerFire Some a show ?thesis by simp
  qed
qed

lemma cap_run: "capOk cfg s \<Longrightarrow> disciplined cfg es s \<Longrightarrow> capOk cfg (run cfg es s)"
proof (induction es arbitrary: s)
  case Nil
  then show ?case by simp
next
  case (Cons e es)
  from Cons.prems have "capOk cfg (step cfg e s)" by (simp add: cap_step)
  with Cons.prems Cons.IH[of "step cfg e s"] show ?case by simp
qed

section \<open>The deadline timer\<close>


lemma setTimeoutDelay_exact: "1 \<le> d \<Longrightarrow> d \<le> 2147483647 \<Longrightarrow> setTimeoutDelay d = d"
  by (simp add: setTimeoutDelay_def)






















text \<open>The definitions that evaluate a run of events on a concrete pool.\<close>

lemmas eval_defs = getConnection_def query_def handleRequest_def activatePool_def
  addConnectionToPool_def connectDone_def connectThen_def connectCatch_def
  overlayNewConnection_def checkPoolSize_def totalConnections_def activeCount_def idleCount_def
  handleTaskQueue_def resetTimeoutToNextTask.simps getIdleValidConnection.simps
  rejectTimeout_def rejectAndResetTimeout_def useConnection_def queryDone_def
  onNoIdle_def wrappedEnd_def rollbackDone_def pingDone_def wrappedDestroy_def onError_def
  errorScan.simps endPool_def drainIdle.simps initial_def setTimeoutDelay_def Let_def

section \<open>The waiter queue service needs an idle session (C10)\<close>

text \<open>
  C10. \<open>handleTaskQueue\<close> shifts a waiter off the queue before it looks at the Idle Set
  and then dereferences the session it shifted from the Idle Set. It raises an exception
  exactly when a waiter is queued and the Idle Set is empty, and then the result is the
  state with the timer cleared and the waiter removed: the waiter is in no queue, no
  rejection is scheduled for it and nothing is logged for its promise, so it is
  neither resolved nor rejected. The witness is a run in which a \<open>getConnection\<close> call
  takes the session just released before the deferred service runs.
\<close>

theorem handleTaskQueue_needs_idle_session:
  "(snd (handleTaskQueue now s) \<noteq> None \<longleftrightarrow> taskQueue s \<noteq> [] \<and> idleConnections s = []) \<and>
   (taskQueue s \<noteq> [] \<and> idleConnections s = [] \<longrightarrow>
      handleTaskQueue now s =
        (s\<lparr>firstTaskTimeout := None, taskQueue := tl (taskQueue s)\<rparr>, Some TypeError))"
proof (cases "taskQueue s")
  case Nil
  then show ?thesis by (simp add: handleTaskQueue_empty)
next
  case (Cons t ts)
  show ?thesis
  proof (cases "idleConnections s")
    case Nil
    with Cons show ?thesis by (simp add: handleTaskQueue_no_idle)
  next
    case (Cons c cs)
    with \<open>taskQueue s = t # ts\<close> show ?thesis by (simp add: handleTaskQueue_serve)
  qed
qed

theorem handleTaskQueue_needs_idle_session_witness:
  "taskQueue (run poolOfOne (releaseToWaiter @ [GetConnection 5 [0]]) initial) =
     [\<lparr>timeout = 102, promise = 1, sql = None, vals = []\<rparr>] \<and>
   idleConnections (run poolOfOne (releaseToWaiter @ [GetConnection 5 [0]]) initial) = [] \<and>
   handleTaskQueue 5 (run poolOfOne (releaseToWaiter @ [GetConnection 5 [0]]) initial) =
     ((run poolOfOne (releaseToWaiter @ [GetConnection 5 [0]]) initial)
        \<lparr>firstTaskTimeout := None, taskQueue := []\<rparr>, Some TypeError) \<and>
   effects (run poolOfOne (releaseToWaiter @ [GetConnection 5 [0], NextTick 5]) initial) =
     [CallConnect 0, Resolved 0 (Session 0), CallRollback 0, Thrown TypeError]"
proof -
  let ?w = "run poolOfOne (releaseToWaiter @ [GetConnection 5 [0]]) initial"
  have q: "taskQueue ?w = [\<lparr>timeout = 102, promise = 1, sql = None, vals = []\<rparr>]"
    and i: "idleConnections ?w = []"
    by (simp_all add: poolOfOne_def releaseToWaiter_def eval_defs)
  have e: "effects (run poolOfOne (releaseToWaiter @ [GetConnection 5 [0], NextTick 5]) initial) =
     [CallConnect 0, Resolved 0 (Session 0), CallRollback 0, Thrown TypeError]"
    by (simp add: poolOfOne_def releaseToWaiter_def eval_defs)
  from handleTaskQueue_needs_idle_session[of 5 ?w] q i e show ?thesis
    by simp
qed

section \<open>A timeout for a waiter that is not the head of the queue (C9)\<close>

text \<open>
  C9. When \<open>rejectTimeout\<close> is called for a task that is not the head of the waiter queue
  it raises the exception \<open>Rejection by timeout without task !!!\<close> and changes nothing
  but \<open>firstTaskTimeout\<close>: no waiter is rejected. So does the timer when it fires (it is
  due) for such a task. When the live timer is armed for the head of the queue, the timer's
  callback raises nothing, and the calls of \<open>rejectTimeout\<close> inside
  \<open>resetTimeoutToNextTask\<close> never raise.
\<close>

theorem timeout_off_head_is_fatal:
  "(\<not> atHead t s \<longrightarrow>
      rejectTimeout t s = (s\<lparr>firstTaskTimeout := None\<rparr>, Some assertionFailure)) \<and>
   (firstTaskTimeout s = Some tm \<and> live tm \<and> \<not> atHead (target tm) s \<longrightarrow>
      step cfg (TimerFire now) s =
        (if dueAt tm \<le> now
         then s\<lparr>firstTaskTimeout := None, effects := effects s @ [Thrown assertionFailure]\<rparr>
         else s)) \<and>
   (timerAtHead s \<longrightarrow> effects (step cfg (TimerFire now) s) = effects s) \<and>
   snd (resetTimeoutToNextTask now s) = None"
proof (intro conjI impI)
  assume "\<not> atHead t s"
  then show "rejectTimeout t s = (s\<lparr>firstTaskTimeout := None\<rparr>, Some assertionFailure)"
    by (rule rejectTimeout_off_head)
next
  assume "firstTaskTimeout s = Some tm \<and> live tm \<and> \<not> atHead (target tm) s"
  then show "step cfg (TimerFire now) s =
      (if dueAt tm \<le> now
       then s\<lparr>firstTaskTimeout := None, effects := effects s @ [Thrown assertionFailure]\<rparr>
       else s)"
    by (simp add: rejectAndResetTimeout_def rejectTimeout_off_head)
next
  assume h: "timerAtHead s"
  show "effects (step cfg (TimerFire now) s) = effects s"
  proof (cases "firstTaskTimeout s")
    case None
    then show ?thesis by simp
  next
    case (Some tm)
    show ?thesis
    proof (cases "live tm")
      case False
      with Some show ?thesis by simp
    next
      case True
      with h Some have "atHead (target tm) s" by (simp add: timerAtHead_def)
      with Some True show ?thesis
        by (simp add: rejectAndResetTimeout_def rejectTimeout_at_head reset_shape)
    qed
  qed
next
  show "snd (resetTimeoutToNextTask now s) = None"
    by (simp add: reset_shape)
qed

theorem timeout_off_head_is_fatal_witness:
  "timerAtHead (run poolOfOne [GetConnection 0 [], Continue 0 0] initial) \<and>
   effects (step poolOfOne (TimerFire 100) (run poolOfOne [GetConnection 0 [], Continue 0 0] initial)) =
     effects (run poolOfOne [GetConnection 0 [], Continue 0 0] initial) \<and>
   firstTaskTimeout (run poolOfOne lostWaiter initial) =
     Some \<lparr>target = \<lparr>timeout = 106, promise = 4, sql = None, vals = []\<rparr>, dueAt = 106, live = True\<rparr> \<and>
   map promise (taskQueue (run poolOfOne lostWaiter initial)) = [2, 4] \<and>
   step poolOfOne (TimerFire 106) (run poolOfOne lostWaiter initial) =
     (run poolOfOne lostWaiter initial)
       \<lparr>firstTaskTimeout := None,
         effects := effects (run poolOfOne lostWaiter initial) @ [Thrown assertionFailure]\<rparr>"
proof -
  let ?a = "run poolOfOne [GetConnection 0 [], Continue 0 0] initial"
  let ?b = "run poolOfOne lostWaiter initial"
  let ?tm = "\<lparr>target = \<lparr>timeout = 106, promise = 4, sql = None, vals = []\<rparr>, dueAt = 106, live = True\<rparr>"
  have a: "timerAtHead ?a"
    by (simp add: poolOfOne_def eval_defs timerAtHead_def atHead_def)
  have b: "firstTaskTimeout ?b = Some ?tm"
    by (simp add: poolOfOne_def lostWaiter_def eval_defs)
  have q: "map promise (taskQueue ?b) = [2, 4]"
    by (simp add: poolOfOne_def lostWaiter_def eval_defs)
  then have n: "\<not> atHead (target ?tm) ?b"
    by (auto simp: atHead_def split: list.splits)
  from timeout_off_head_is_fatal[of "target ?tm" ?b ?tm poolOfOne 106]
    timeout_off_head_is_fatal[of "target ?tm" ?a ?tm poolOfOne 100] a b q n
  show ?thesis by simp
qed

section \<open>A fault of an idle session and its siblings (C3)\<close>

text \<open>
  C3. The pool of two sessions holds the idle sessions 0 and 1, last used at 1000 and
  1050. When session 0 emits \<open>error\<close> it leaves the Idle Set and the total drops to one,
  but the loop stops at the faulty session: \<open>lastUse\<close> of session 1, which is behind it
  in the queue, stays 1050, and a \<open>getConnection\<close> at time 1060 hands session 1 out
  with no \<open>ping\<close>. When session 1 emits \<open>error\<close> instead, session 0, which is in front
  of it, is stamped with the epoch and is probed at its next acquisition.
\<close>

theorem error_scan_stops_at_faulty_session:
  "idleConnections (run poolOfTwo twoIdle initial) = [0, 1] \<and>
   idleConnections (run poolOfTwo (twoIdle @ [ConnError 0]) initial) = [1] \<and>
   totalConnections (run poolOfTwo (twoIdle @ [ConnError 0]) initial) = 1 \<and>
   lastUse (run poolOfTwo (twoIdle @ [ConnError 0]) initial) 1 = 1050 \<and>
   effects (run poolOfTwo (twoIdle @ [ConnError 0, GetConnection 1060 [1]]) initial) =
     [CallConnect 0, CallConnect 1] \<and>
   found (run poolOfTwo (twoIdle @ [ConnError 0, GetConnection 1060 [1]]) initial) =
     [(1, (0, None, []))] \<and>
   lastUse (run poolOfTwo (twoIdle @ [ConnError 1]) initial) 0 = 0 \<and>
   effects (run poolOfTwo (twoIdle @ [ConnError 1, GetConnection 1060 [0]]) initial) =
     [CallConnect 0, CallConnect 1, CallPing 0]"
  by (simp add: poolOfTwo_def twoIdle_def eval_defs)

section \<open>A query through the pool and the release of its session (C7)\<close>

text \<open>
  C7, as stated, fails: when the outcome of a query is propagated its session is not back
  in the pool. The wrapped \<open>end\<close> has been called, but it only issues a \<open>rollback\<close>: at the
  time the caller's promise is settled the session is still in the Active Set and not in
  the Idle Set. When that rollback fails the session is ended and never returns to the
  pool.
\<close>

theorem query_outcome_precedes_return_to_pool:
  "effects (run poolOfOne (oneQuery @ [QueryDone 0 (Inr ''1'')]) initial) =
     [CallConnect 0, CallQuery 0 (Some ''SELECT 1'') [], CallRollback 0, Resolved 0 (Rows ''1'')] \<and>
   activeConnections (run poolOfOne (oneQuery @ [QueryDone 0 (Inr ''1'')]) initial) = [0] \<and>
   idleConnections (run poolOfOne (oneQuery @ [QueryDone 0 (Inr ''1'')]) initial) = [] \<and>
   effects (run poolOfOne
     (oneQuery @ [QueryDone 0 (Inl (SessionError ''syntax error'')), RollbackDone 0 False 1007])
     initial) =
     [CallConnect 0, CallQuery 0 (Some ''SELECT 1'') [], CallRollback 0,
      Rejected 0 (SessionError ''syntax error''), CallEnd 0] \<and>
   sessions (run poolOfOne
     (oneQuery @ [QueryDone 0 (Inl (SessionError ''syntax error'')), RollbackDone 0 False 1007])
     initial) = {}"
  by (simp add: poolOfOne_def oneQuery_def eval_defs sessions_def)

text \<open>
  C7, amended. Every query with a non-empty \<open>sql\<close> that the pool issues, in
  \<open>useConnection\<close> for a request served at once and in \<open>handleTaskQueue\<close> for a waiter, is
  registered with the promise of its caller. When it completes, with rows or with an
  error and in both variants of the pool, the wrapped \<open>end\<close> of the session is called
  first (its \<open>rollback\<close> is issued and pending), and then the caller's promise is settled
  with the very outcome of the query: the rows, or the error unchanged. The session stays
  in the Active Set until its rollback completes: a rollback that succeeds moves it to the
  Idle Set of an open pool, stamped with the time, or ends it when the pool is closed; a
  rollback that fails removes it from the Active Set and ends it.
\<close>

theorem query_calls_release_before_outcome:
  "(truthy q \<longrightarrow>
      useConnection c (p, q, v) s =
        s\<lparr>effects := effects s @ [CallQuery c q v], querying := querying s @ [(c, p)]\<rparr>) \<and>
   (taskQueue s = t # ts \<and> idleConnections s = c # cs \<and> truthy (sql t) \<longrightarrow>
      effects (fst (handleTaskQueue now s)) = effects s @ [CallQuery c (sql t) (vals t)] \<and>
      querying (fst (handleTaskQueue now s)) = querying s @ [(c, promise t)]) \<and>
   (map_of (querying s) c = Some p \<longrightarrow>
      effects (step cfg (QueryDone c res) s) =
        effects s @ [CallRollback c,
                     case res of Inl err \<Rightarrow> Rejected p err | Inr rows \<Rightarrow> Resolved p (Rows rows)] \<and>
      rollingBack (step cfg (QueryDone c res) s) = rollingBack s @ [c] \<and>
      querying (step cfg (QueryDone c res) s) = remove1 (c, p) (querying s) \<and>
      activeConnections (step cfg (QueryDone c res) s) = activeConnections s \<and>
      idleConnections (step cfg (QueryDone c res) s) = idleConnections s) \<and>
   (c \<in> set (rollingBack s) \<and> \<not> closed s \<longrightarrow>
      idleConnections (step cfg (RollbackDone c True now) s) = idleConnections s @ [c] \<and>
      activeConnections (step cfg (RollbackDone c True now) s) = removeAll c (activeConnections s) \<and>
      lastUse (step cfg (RollbackDone c True now) s) c = now \<and>
      effects (step cfg (RollbackDone c True now) s) = effects s) \<and>
   (c \<in> set (rollingBack s) \<and> closed s \<longrightarrow>
      idleConnections (step cfg (RollbackDone c True now) s) = idleConnections s \<and>
      activeConnections (step cfg (RollbackDone c True now) s) = removeAll c (activeConnections s) \<and>
      effects (step cfg (RollbackDone c True now) s) = effects s @ [CallEnd c]) \<and>
   (c \<in> set (rollingBack s) \<longrightarrow>
      idleConnections (step cfg (RollbackDone c False now) s) = idleConnections s \<and>
      activeConnections (step cfg (RollbackDone c False now) s) = removeAll c (activeConnections s) \<and>
      take (Suc (length (effects s))) (effects (step cfg (RollbackDone c False now) s)) =
        effects s @ [CallEnd c])"
  by (cases res) (simp_all add: useConnection_def handleTaskQueue_serve served_def queryDone_def
        wrappedEnd_def rollbackDone_def Let_def)

theorem query_calls_release_before_outcome_witness:
  "map_of (querying (run poolOfOne oneQuery initial)) 0 = Some 0 \<and>
   effects (run poolOfOne (oneQuery @ [QueryDone 0 (Inl (SessionError ''syntax error''))]) initial) =
     [CallConnect 0, CallQuery 0 (Some ''SELECT 1'') [], CallRollback 0,
      Rejected 0 (SessionError ''syntax error'')] \<and>
   effects (run poolOfOne (oneQuery @ [QueryDone 0 (Inr ''1'')]) initial) =
     [CallConnect 0, CallQuery 0 (Some ''SELECT 1'') [], CallRollback 0, Resolved 0 (Rows ''1'')] \<and>
   rollingBack (run poolOfOne (oneQuery @ [QueryDone 0 (Inr ''1'')]) initial) = [0] \<and>
   activeConnections (run poolOfOne (oneQuery @ [QueryDone 0 (Inr ''1'')]) initial) = [0] \<and>
   \<not> closed (run poolOfOne (oneQuery @ [QueryDone 0 (Inr ''1'')]) initial) \<and>
   idleConnections (run poolOfOne (oneQuery @ [QueryDone 0 (Inr ''1''), RollbackDone 0 True 1007])
     initial) = [0] \<and>
   activeConnections (run poolOfOne (oneQuery @ [QueryDone 0 (Inr ''1''), RollbackDone 0 True 1007])
     initial) = [] \<and>
   lastUse (run poolOfOne (oneQuery @ [QueryDone 0 (Inr ''1''), RollbackDone 0 True 1007])
     initial) 0 = 1007 \<and>
   idleConnections (run poolOfOne (oneQuery @ [QueryDone 0 (Inr ''1''), RollbackDone 0 False 1007])
     initial) = [] \<and>
   activeConnections (run poolOfOne (oneQuery @ [QueryDone 0 (Inr ''1''), RollbackDone 0 False 1007])
     initial) = [] \<and>
   effects (run poolOfOne (oneQuery @ [QueryDone 0 (Inr ''1''), RollbackDone 0 False 1007]) initial) =
     [CallConnect 0, CallQuery 0 (Some ''SELECT 1'') [], CallRollback 0, Resolved 0 (Rows ''1''),
      CallEnd 0] \<and>
   effects (run poolOfOne (queuedQuery @ [NextTick 1005]) initial) =
     [CallConnect 0, Resolved 0 (Session 0), CallRollback 0, CallQuery 0 (Some ''SELECT 1'') []] \<and>
   querying (run poolOfOne (queuedQuery @ [NextTick 1005]) initial) = [(0, 1)]"
proof -
  define s where "s = run poolOfOne oneQuery initial"
  define d where "d = step poolOfOne (QueryDone 0 (Inr ''1'')) s"
  define w where "w = (run poolOfOne queuedQuery initial)\<lparr>ticks := []\<rparr>"
  let ?t = "\<lparr>timeout = 1102, promise = 1, sql = Some ''SELECT 1'', vals = []\<rparr>"
  have q: "map_of (querying s) 0 = Some 0"
    and e: "effects s = [CallConnect 0, CallQuery 0 (Some ''SELECT 1'') []]"
    and r: "rollingBack s = []" and a: "activeConnections s = [0]" and i: "idleConnections s = []"
    and c: "\<not> closed s"
    unfolding s_def by (simp_all add: poolOfOne_def oneQuery_def eval_defs)
  have x: "run poolOfOne (oneQuery @ e1 # es) initial = run poolOfOne es (step poolOfOne e1 s)" for e1 es
    unfolding s_def by (simp add: oneQuery_def)
  note th = query_calls_release_before_outcome[where c = 0 and p = 0 and cfg = poolOfOne]
  from th[where s = s and res = "Inl (SessionError ''syntax error'')"] q e
  have f: "effects (step poolOfOne (QueryDone 0 (Inl (SessionError ''syntax error''))) s) =
     [CallConnect 0, CallQuery 0 (Some ''SELECT 1'') [], CallRollback 0,
      Rejected 0 (SessionError ''syntax error'')]"
    by (simp del: step.simps)
  from th[where s = s and res = "Inr ''1''"] q e r a i
  have g: "effects d =
     [CallConnect 0, CallQuery 0 (Some ''SELECT 1'') [], CallRollback 0, Resolved 0 (Rows ''1'')]"
    and h: "rollingBack d = [0]" and j: "activeConnections d = [0]" and k: "idleConnections d = []"
    unfolding d_def by (simp_all del: step.simps)
  have cd: "\<not> closed d"
    unfolding d_def using c q by (simp add: queryDone_def wrappedEnd_def)
  from h have ud: "0 \<in> set (rollingBack d)" by simp
  from th[where s = d and now = 1007] cd ud j k g
  have l: "idleConnections (step poolOfOne (RollbackDone 0 True 1007) d) = [0]"
    and m: "activeConnections (step poolOfOne (RollbackDone 0 True 1007) d) = []"
    and n: "lastUse (step poolOfOne (RollbackDone 0 True 1007) d) 0 = 1007"
    and o: "idleConnections (step poolOfOne (RollbackDone 0 False 1007) d) = []"
    and o': "activeConnections (step poolOfOne (RollbackDone 0 False 1007) d) = []"
    by (simp_all del: step.simps)
  have y: "effects (run poolOfOne (oneQuery @ [QueryDone 0 (Inr ''1''), RollbackDone 0 False 1007]) initial) =
     [CallConnect 0, CallQuery 0 (Some ''SELECT 1'') [], CallRollback 0, Resolved 0 (Rows ''1''),
      CallEnd 0]"
    by (simp add: poolOfOne_def oneQuery_def eval_defs)
  have wq: "taskQueue w = [?t]" and wi: "idleConnections w = [0]"
    and we: "effects w = [CallConnect 0, Resolved 0 (Session 0), CallRollback 0]"
    and wy: "querying w = []"
    unfolding w_def by (simp_all add: poolOfOne_def queuedQuery_def eval_defs)
  from th[where s = w and t = ?t and ts = "[]" and cs = "[]" and now = 1005] wq wi we wy
  have z0: "effects (fst (handleTaskQueue 1005 w)) =
     [CallConnect 0, Resolved 0 (Session 0), CallRollback 0, CallQuery 0 (Some ''SELECT 1'') []]"
    and z1: "querying (fst (handleTaskQueue 1005 w)) = [(0, 1)]"
    by (simp_all del: step.simps)
  have zs: "snd (handleTaskQueue 1005 w) = None"
    using wq wi by (simp add: handleTaskQueue_serve)
  have wk: "run poolOfOne (queuedQuery @ [NextTick 1005]) initial = fst (handleTaskQueue 1005 w)"
  proof -
    have "ticks (run poolOfOne queuedQuery initial) = [TickHandleTaskQueue]"
      by (simp add: poolOfOne_def queuedQuery_def eval_defs)
    then have "step poolOfOne (NextTick 1005) (run poolOfOne queuedQuery initial) =
        uncaught (handleTaskQueue 1005 w)"
      unfolding w_def by simp
    moreover have "run poolOfOne (queuedQuery @ [NextTick 1005]) initial =
        step poolOfOne (NextTick 1005) (run poolOfOne queuedQuery initial)"
      by (simp add: queuedQuery_def)
    ultimately show ?thesis using zs by (cases "handleTaskQueue 1005 w") simp
  qed
  from q f g h j cd l m n o o' y z0 z1 show ?thesis
    unfolding wk unfolding s_def[symmetric] x d_def[symmetric] by (simp del: step.simps)
qed

text \<open>
  \<open>pool.query\<close> with an empty \<open>sql\<close> is served as \<open>getConnection\<close> is: the promise is
  resolved with the session, which stays in the Active Set with no query and no release.
\<close>

lemma query_without_sql_lends_session:
  "effects (run poolOfOne
     [ActivatePool, ConnectDone 0 True 1000, Query [] [] 1001 [0], Continue 0 1001] initial) =
     [CallConnect 0, Resolved 0 (Session 0)] \<and>
   activeConnections (run poolOfOne
     [ActivatePool, ConnectDone 0 True 1000, Query [] [] 1001 [0], Continue 0 1001] initial) = [0] \<and>
   querying (run poolOfOne
     [ActivatePool, ConnectDone 0 True 1000, Query [] [] 1001 [0], Continue 0 1001] initial) = [] \<and>
   rollingBack (run poolOfOne
     [ActivatePool, ConnectDone 0 True 1000, Query [] [] 1001 [0], Continue 0 1001] initial) = []"
  by (simp add: poolOfOne_def eval_defs)

section \<open>The acquire timeout (C5)\<close>




section \<open>The capacity bound (C1)\<close>

lemma flag_checkPoolSize:
  "connectionInCreation s \<Longrightarrow> checkPoolSize cfg this s = (s, None)"
  by (simp add: checkPoolSize_def)

lemma flag_kept:
  assumes f: "connectionInCreation s" and n: "\<not> isConnectDone e"
  shows "connectionInCreation (step cfg e s)"
proof (cases e)
  case (GetConnection now valid)
  with f show ?thesis by (simp add: getConnection_def handleRequest_def Let_def)
next
  case (Query q v now valid)
  with f show ?thesis by (simp add: query_def handleRequest_def Let_def)
next
  case EndPool
  with f show ?thesis by (simp add: endPool_def Let_def drainIdle_shape)
next
  case ActivatePool
  then show ?thesis by (simp add: activatePool_def addConnectionToPool_def)
next
  case (Continue p now)
  with f show ?thesis
    by (auto simp: useConnection_def onNoIdle_def Let_def split: option.splits prod.splits)
next
  case (ConnectDone c ok now)
  with n show ?thesis by simp
next
  case (PingDone c ok now valid)
  with f show ?thesis by (auto simp: pingDone_def split: option.splits)
next
  case (QueryDone c res)
  with f show ?thesis
    by (auto simp: queryDone_def Let_def wrappedEnd_def split: option.splits sum.splits)
next
  case (RollbackDone c ok now)
  with f show ?thesis by (auto simp: rollbackDone_def Let_def flag_checkPoolSize)
next
  case (Release c)
  with f show ?thesis by (simp add: wrappedEnd_def)
next
  case (Destroy c)
  with f show ?thesis by (simp add: wrappedDestroy_def Let_def flag_checkPoolSize)
next
  case (ConnError c)
  with f show ?thesis by (simp add: onError_def Let_def flag_checkPoolSize)
next
  case (NextTick now)
  with f show ?thesis
    by (auto simp: addConnectionToPool_def split: list.splits tick.splits)
next
  case (TimerFire now)
  with f show ?thesis by (auto split: option.splits)
qed

lemma capOk_initial: "0 \<le> connectionLimit cfg \<Longrightarrow> capOk cfg initial"
  by (simp add: capOk_def initial_def totalConnections_def activeCount_def idleCount_def
        creations_def)

text \<open>
  C1, as stated, fails. \<open>activatePool\<close> starts a creation without reading
  \<open>connectionInCreation\<close> or the limit: on a pool of limit 1, two calls have two
  creations in flight, and a call made when the pool is full adds a second session.
  A session whose wrapped \<open>end\<close> is called twice is pushed on the Idle Set by each of the
  two rollbacks, so that \<open>idleConnections.size()\<close> is 2 on a pool of limit 1.
\<close>

theorem activatePool_ignores_the_limit:
  "connectionLimit poolOfOne = 1 \<and>
   length (connecting (run poolOfOne [ActivatePool, ActivatePool] initial)) = 2 \<and>
   totalConnections
     (run poolOfOne [ActivatePool, ConnectDone 0 True 0, ActivatePool, ConnectDone 1 True 1] initial) = 2 \<and>
   idleConnections
     (run poolOfOne [ActivatePool, ConnectDone 0 True 0, GetConnection 1 [0], Continue 0 1,
        Release 0, Release 0, RollbackDone 0 True 5, RollbackDone 0 True 6] initial) = [0, 0] \<and>
   totalConnections
     (run poolOfOne [ActivatePool, ConnectDone 0 True 0, GetConnection 1 [0], Continue 0 1,
        Release 0, Release 0, RollbackDone 0 True 5, RollbackDone 0 True 6] initial) = 2"
  by (simp add: poolOfOne_def eval_defs)

text \<open>
  C1, amended. In a run from the initial state of a pool whose limit is not negative,
  in which \<open>activatePool\<close> is called only while no creation is in flight and the pool is
  below its limit, and in which the rollback of a wrapped \<open>end\<close> succeeds only for a
  session that is still in the Active Set (unless the pool is closed), the number of idle
  plus active sessions never exceeds \<open>connectionLimit\<close>, and at most one creation is
  connecting or scheduled at any time, only while \<open>connectionInCreation\<close> is set.
  While the flag is set, \<open>checkPoolSize\<close> does nothing, the acquire path starts no
  creation, and every event other than the completion of a creation leaves the flag set;
  \<open>addConnectionToPool\<close> sets it before the connection is opened.
\<close>

theorem capacity_bound_under_discipline:
  "(0 \<le> connectionLimit cfg \<and> disciplined cfg es initial \<longrightarrow>
      int (totalConnections (run cfg es initial)) \<le> connectionLimit cfg \<and>
      length (connecting (run cfg es initial)) \<le> 1 \<and>
      creations (run cfg es initial) \<le> 1 \<and>
      (connectionInCreation (run cfg es initial) \<or> creations (run cfg es initial) = 0)) \<and>
   (connectionInCreation s \<longrightarrow>
      checkPoolSize cfg this s = (s, None) \<and>
      connecting (onNoIdle cfg now r s) = connecting s \<and>
      (\<not> isConnectDone e \<longrightarrow> connectionInCreation (step cfg e s))) \<and>
   connectionInCreation (addConnectionToPool p s)"
proof (intro conjI impI)
  assume "0 \<le> connectionLimit cfg \<and> disciplined cfg es initial"
  then have "capOk cfg (run cfg es initial)"
    by (simp add: cap_run capOk_initial)
  then show "int (totalConnections (run cfg es initial)) \<le> connectionLimit cfg"
    "length (connecting (run cfg es initial)) \<le> 1"
    "creations (run cfg es initial) \<le> 1"
    "connectionInCreation (run cfg es initial) \<or> creations (run cfg es initial) = 0"
    by (auto simp: capOk_def creations_def)
next
  assume f: "connectionInCreation s"
  then show "checkPoolSize cfg this s = (s, None)" by (rule flag_checkPoolSize)
  from f show "connecting (onNoIdle cfg now r s) = connecting s"
    by (cases r) (simp add: onNoIdle_def Let_def split: option.splits)
  assume "\<not> isConnectDone e"
  with f show "connectionInCreation (step cfg e s)" by (rule flag_kept)
next
  show "connectionInCreation (addConnectionToPool p s)"
    by (simp add: addConnectionToPool_def)
qed

theorem capacity_bound_under_discipline_witness:
  "0 \<le> connectionLimit poolOfOne \<and>
   disciplined poolOfOne lostWaiter initial \<and>
   totalConnections (run poolOfOne lostWaiter initial) = 1 \<and>
   connectionLimit poolOfOne = 1 \<and>
   connecting (run poolOfOne lostWaiter initial) = [] \<and>
   connectionInCreation (run poolOfOne [ActivatePool] initial) \<and>
   connectionInCreation (run poolOfOne [ActivatePool, GetConnection 1 [], Continue 0 1] initial) \<and>
   connecting (run poolOfOne [ActivatePool, GetConnection 1 [], Continue 0 1] initial) = [(0, True)]"
proof -
  have a: "0 \<le> connectionLimit poolOfOne" and l: "connectionLimit poolOfOne = 1"
    by (simp_all add: poolOfOne_def)
  have d: "disciplined poolOfOne lostWaiter initial"
    by (simp add: poolOfOne_def lostWaiter_def eval_defs)
  have t: "totalConnections (run poolOfOne lostWaiter initial) = 1"
    and c: "connecting (run poolOfOne lostWaiter initial) = []"
    by (simp_all add: poolOfOne_def lostWaiter_def eval_defs)
  have f: "connectionInCreation (run poolOfOne [ActivatePool] initial)"
    and g: "connecting (run poolOfOne [ActivatePool] initial) = [(0, True)]"
    by (simp_all add: poolOfOne_def eval_defs)
  have h: "\<not> isConnectDone (GetConnection 1 [])" and i: "\<not> isConnectDone (Continue 0 1)" by simp_all
  have j: "connecting (run poolOfOne [ActivatePool, GetConnection 1 [], Continue 0 1] initial) = [(0, True)]"
    by (simp add: poolOfOne_def eval_defs)
  from capacity_bound_under_discipline[of poolOfOne lostWaiter "run poolOfOne [ActivatePool] initial"
      True 1 "(0, None, [])" "GetConnection 1 []" True] a d f h
  have k: "connectionInCreation (run poolOfOne [ActivatePool, GetConnection 1 []] initial)"
    by simp
  from capacity_bound_under_discipline[of poolOfOne lostWaiter
      "run poolOfOne [ActivatePool, GetConnection 1 []] initial"
      True 1 "(0, None, [])" "Continue 0 1" True] k i
  have "connectionInCreation (run poolOfOne [ActivatePool, GetConnection 1 [], Continue 0 1] initial)"
    by simp
  with a l d t c f j show ?thesis by simp
qed

section \<open>A release while a waiter is queued (C2)\<close>

text \<open>
  C2, as stated, fails: when the rollback of a released session succeeds while a waiter is
  queued, the session is pushed on the Idle Set and the service of the queue is deferred
  to \<open>process.nextTick\<close>. In the state after the rollback the session is idle, the
  waiter is still queued and its promise is not settled.
\<close>

theorem released_session_passes_idle_set:
  "idleConnections (run poolOfOne releaseToWaiter initial) = [0] \<and>
   activeConnections (run poolOfOne releaseToWaiter initial) = [] \<and>
   map promise (taskQueue (run poolOfOne releaseToWaiter initial)) = [1] \<and>
   ticks (run poolOfOne releaseToWaiter initial) = [TickHandleTaskQueue] \<and>
   settlements 1 (run poolOfOne releaseToWaiter initial) = []"
  by (simp add: poolOfOne_def releaseToWaiter_def eval_defs settlements_def)

text \<open>
  C2, amended. When the rollback of a released session succeeds on an open pool with a
  waiter queued and an empty Idle Set, the session leaves the Active Set, is stamped with
  the time of the release and is pushed on the Idle Set; the waiters are untouched, a call
  of \<open>handleTaskQueue\<close> is put on the \<open>nextTick\<close> queue, and no creation is started.
  \<open>handleTaskQueue\<close>, run on that state, takes the session out of the Idle Set, puts it
  in the Active Set and hands it to the oldest waiter (resolving it with the session, or
  running its query on it), again with no creation.
\<close>

theorem release_serves_oldest_waiter:
  "\<not> closed s \<and> c \<in> set (rollingBack s) \<and> taskQueue s = t # ts \<and> idleConnections s = [] \<longrightarrow>
     idleConnections (step cfg (RollbackDone c True now) s) = [c] \<and>
     c \<notin> set (activeConnections (step cfg (RollbackDone c True now) s)) \<and>
     lastUse (step cfg (RollbackDone c True now) s) c = now \<and>
     taskQueue (step cfg (RollbackDone c True now) s) = t # ts \<and>
     ticks (step cfg (RollbackDone c True now) s) = ticks s @ [TickHandleTaskQueue] \<and>
     effects (step cfg (RollbackDone c True now) s) = effects s \<and>
     creations (step cfg (RollbackDone c True now) s) = creations s \<and>
     snd (handleTaskQueue later (step cfg (RollbackDone c True now) s)) = None \<and>
     idleConnections (fst (handleTaskQueue later (step cfg (RollbackDone c True now) s))) = [] \<and>
     c \<in> set (activeConnections (fst (handleTaskQueue later (step cfg (RollbackDone c True now) s)))) \<and>
     taskQueue (fst (handleTaskQueue later (step cfg (RollbackDone c True now) s))) =
       dropWhile (expired later) ts \<and>
     creations (fst (handleTaskQueue later (step cfg (RollbackDone c True now) s))) = creations s \<and>
     effects (fst (handleTaskQueue later (step cfg (RollbackDone c True now) s))) =
       effects s @ [if truthy (sql t) then CallQuery c (sql t) (vals t)
                    else Resolved (promise t) (Session c)]"
proof (intro impI)
  assume h: "\<not> closed s \<and> c \<in> set (rollingBack s) \<and> taskQueue s = t # ts \<and> idleConnections s = []"
  let ?s1 = "s\<lparr>rollingBack := remove1 c (rollingBack s), lastUse := (lastUse s)(c := now),
     activeConnections := removeAll c (activeConnections s), idleConnections := [c],
     ticks := ticks s @ [TickHandleTaskQueue]\<rparr>"
  from h have s1: "step cfg (RollbackDone c True now) s = ?s1"
    by (simp add: rollbackDone_def Let_def)
  have q: "taskQueue ?s1 = t # ts" and i: "idleConnections ?s1 = c # []"
    using h by simp_all
  show "idleConnections (step cfg (RollbackDone c True now) s) = [c] \<and>
     c \<notin> set (activeConnections (step cfg (RollbackDone c True now) s)) \<and>
     lastUse (step cfg (RollbackDone c True now) s) c = now \<and>
     taskQueue (step cfg (RollbackDone c True now) s) = t # ts \<and>
     ticks (step cfg (RollbackDone c True now) s) = ticks s @ [TickHandleTaskQueue] \<and>
     effects (step cfg (RollbackDone c True now) s) = effects s \<and>
     creations (step cfg (RollbackDone c True now) s) = creations s \<and>
     snd (handleTaskQueue later (step cfg (RollbackDone c True now) s)) = None \<and>
     idleConnections (fst (handleTaskQueue later (step cfg (RollbackDone c True now) s))) = [] \<and>
     c \<in> set (activeConnections (fst (handleTaskQueue later (step cfg (RollbackDone c True now) s)))) \<and>
     taskQueue (fst (handleTaskQueue later (step cfg (RollbackDone c True now) s))) =
       dropWhile (expired later) ts \<and>
     creations (fst (handleTaskQueue later (step cfg (RollbackDone c True now) s))) = creations s \<and>
     effects (fst (handleTaskQueue later (step cfg (RollbackDone c True now) s))) =
       effects s @ [if truthy (sql t) then CallQuery c (sql t) (vals t)
                    else Resolved (promise t) (Session c)]"
    unfolding s1 handleTaskQueue_serve[OF q i]
    using h by (simp add: served_def creations_def rejections_def)
qed

theorem release_serves_oldest_waiter_witness:
  "\<not> closed (run poolOfOne (butlast releaseToWaiter) initial) \<and>
   rollingBack (run poolOfOne (butlast releaseToWaiter) initial) = [0] \<and>
   taskQueue (run poolOfOne (butlast releaseToWaiter) initial) =
     [\<lparr>timeout = 102, promise = 1, sql = None, vals = []\<rparr>] \<and>
   idleConnections (run poolOfOne (butlast releaseToWaiter) initial) = [] \<and>
   effects (fst (handleTaskQueue 6 (run poolOfOne releaseToWaiter initial))) =
     [CallConnect 0, Resolved 0 (Session 0), CallRollback 0, Resolved 1 (Session 0)] \<and>
   activeConnections (fst (handleTaskQueue 6 (run poolOfOne releaseToWaiter initial))) = [0]"
proof -
  let ?s = "run poolOfOne (butlast releaseToWaiter) initial"
  let ?t = "\<lparr>timeout = 102, promise = 1, sql = None, vals = []\<rparr>"
  have a: "\<not> closed ?s" and b: "rollingBack ?s = [0]" and c: "taskQueue ?s = [?t]"
    and d: "idleConnections ?s = []"
    and e: "effects ?s = [CallConnect 0, Resolved 0 (Session 0), CallRollback 0]"
    and f: "activeConnections ?s = [0]"
    by (simp_all add: poolOfOne_def releaseToWaiter_def eval_defs)
  have r: "run poolOfOne releaseToWaiter initial = step poolOfOne (RollbackDone 0 True 5) ?s"
    by (simp add: releaseToWaiter_def)
  have g: "activeConnections (fst (handleTaskQueue 6 (run poolOfOne releaseToWaiter initial))) = [0]"
    by (simp add: poolOfOne_def releaseToWaiter_def eval_defs)
  from release_serves_oldest_waiter[of ?s 0 ?t "[]" poolOfOne 5 6] a b c d e g
  show ?thesis by (simp add: r)
qed

section \<open>A failed probe of an idle session (C4)\<close>

text \<open>
  C4, as stated, fails: a session whose probe fails is deleted from the Active Set and
  dropped; neither \<open>destroy\<close> nor \<open>end\<close> is called on it. After the failed probe of the
  only session of the pool, the calls made on the sessions are the connect and the ping,
  and the session is in no set of the pool.
\<close>

theorem failed_probe_is_not_destroyed:
  "effects (run poolOfOne
     [ActivatePool, ConnectDone 0 True 0, GetConnection 1000 [0], PingDone 0 False 1001 [0]]
     initial) = [CallConnect 0, CallPing 0] \<and>
   sessions (run poolOfOne
     [ActivatePool, ConnectDone 0 True 0, GetConnection 1000 [0], PingDone 0 False 1001 [0]]
     initial) = {}"
  by (simp add: poolOfOne_def eval_defs sessions_def)

text \<open>
  C4, amended, for the promise variant of the pool. When the probe of session \<open>c\<close>, made
  for a request, fails, \<open>c\<close> is deleted from the Active Set and the Idle Set is scanned
  from the front: the sessions that are recent enough not to be probed and are not valid
  are taken out and dropped; the scan stops at the first session that is either due for
  a probe, which is then probed for the same request, or valid, which is handed to the
  request; when the Idle Set is exhausted the request falls through to the creation and
  queueing path. Nothing is settled on the promise of the request by the failure, and
  no call other than the next ping is made.
\<close>

theorem failed_probe_retries_next_idle:
  "\<not> useCallback cfg \<and> map_of (pinging s) c = Some (Some req) \<longrightarrow>
     settlements (fst req) (step cfg (PingDone c False now valid) s) = settlements (fst req) s \<and>
     takeWhile (dropped cfg now valid (lastUse s)) (idleConnections s) @
       dropWhile (dropped cfg now valid (lastUse s)) (idleConnections s) = idleConnections s \<and>
     (case dropWhile (dropped cfg now valid (lastUse s)) (idleConnections s) of
        [] \<Rightarrow>
          idleConnections (step cfg (PingDone c False now valid) s) = [] \<and>
          activeConnections (step cfg (PingDone c False now valid) s) =
            filter (\<lambda>x. x \<notin> set (takeWhile (dropped cfg now valid (lastUse s)) (idleConnections s)))
              (removeAll c (activeConnections s)) \<and>
          notFound (step cfg (PingDone c False now valid) s) = notFound s @ [req] \<and>
          pinging (step cfg (PingDone c False now valid) s) = remove1 (c, Some req) (pinging s) \<and>
          found (step cfg (PingDone c False now valid) s) = found s \<and>
          effects (step cfg (PingDone c False now valid) s) = effects s
      | c' # r \<Rightarrow>
          idleConnections (step cfg (PingDone c False now valid) s) = r \<and>
          activeConnections (step cfg (PingDone c False now valid) s) =
            List.insert c'
              (filter (\<lambda>x. x \<notin> set (takeWhile (dropped cfg now valid (lastUse s)) (idleConnections s)))
                 (removeAll c (activeConnections s))) \<and>
          notFound (step cfg (PingDone c False now valid) s) = notFound s \<and>
          (if stale cfg now (lastUse s) c'
           then pinging (step cfg (PingDone c False now valid) s) =
                  remove1 (c, Some req) (pinging s) @ [(c', Some req)] \<and>
                found (step cfg (PingDone c False now valid) s) = found s \<and>
                effects (step cfg (PingDone c False now valid) s) = effects s @ [CallPing c']
           else pinging (step cfg (PingDone c False now valid) s) =
                  remove1 (c, Some req) (pinging s) \<and>
                found (step cfg (PingDone c False now valid) s) = found s @ [(c', req)] \<and>
                effects (step cfg (PingDone c False now valid) s) = effects s))"
proof (intro impI)
  assume h: "\<not> useCallback cfg \<and> map_of (pinging s) c = Some (Some req)"
  obtain p q v where req: "req = (p, q, v)" by (cases req)
  let ?rest = "dropWhile (dropped cfg now valid (lastUse s)) (idleConnections s)"
  show "settlements (fst req) (step cfg (PingDone c False now valid) s) = settlements (fst req) s \<and>
     takeWhile (dropped cfg now valid (lastUse s)) (idleConnections s) @ ?rest = idleConnections s \<and>
     (case ?rest of
        [] \<Rightarrow>
          idleConnections (step cfg (PingDone c False now valid) s) = [] \<and>
          activeConnections (step cfg (PingDone c False now valid) s) =
            filter (\<lambda>x. x \<notin> set (takeWhile (dropped cfg now valid (lastUse s)) (idleConnections s)))
              (removeAll c (activeConnections s)) \<and>
          notFound (step cfg (PingDone c False now valid) s) = notFound s @ [req] \<and>
          pinging (step cfg (PingDone c False now valid) s) = remove1 (c, Some req) (pinging s) \<and>
          found (step cfg (PingDone c False now valid) s) = found s \<and>
          effects (step cfg (PingDone c False now valid) s) = effects s
      | c' # r \<Rightarrow>
          idleConnections (step cfg (PingDone c False now valid) s) = r \<and>
          activeConnections (step cfg (PingDone c False now valid) s) =
            List.insert c'
              (filter (\<lambda>x. x \<notin> set (takeWhile (dropped cfg now valid (lastUse s)) (idleConnections s)))
                 (removeAll c (activeConnections s))) \<and>
          notFound (step cfg (PingDone c False now valid) s) = notFound s \<and>
          (if stale cfg now (lastUse s) c'
           then pinging (step cfg (PingDone c False now valid) s) =
                  remove1 (c, Some req) (pinging s) @ [(c', Some req)] \<and>
                found (step cfg (PingDone c False now valid) s) = found s \<and>
                effects (step cfg (PingDone c False now valid) s) = effects s @ [CallPing c']
           else pinging (step cfg (PingDone c False now valid) s) =
                  remove1 (c, Some req) (pinging s) \<and>
                found (step cfg (PingDone c False now valid) s) = found s @ [(c', req)] \<and>
                effects (step cfg (PingDone c False now valid) s) = effects s))"
  proof (cases ?rest)
    case Nil
    have "takeWhile (dropped cfg now valid (lastUse s)) (idleConnections s) @ ?rest =
      idleConnections s"
      by simp
    with Nil h req show ?thesis
      by (simp add: pingDone_def getIdle_shape Let_def settlements_def
            del: dropWhile_eq_Nil_conv takeWhile_eq_all_conv)
  next
    case (Cons c' r)
    have "takeWhile (dropped cfg now valid (lastUse s)) (idleConnections s) @ ?rest =
      idleConnections s"
      by simp
    with Cons h req show ?thesis
      by (simp add: pingDone_def getIdle_shape Let_def settlements_def)
  qed
qed

theorem failed_probe_retries_next_idle_witness:
  "\<not> useCallback poolOfTwo \<and>
   map_of (pinging (run poolOfTwo (twoIdle @ [GetConnection 2000 []]) initial)) 0 =
     Some (Some (0, None, [])) \<and>
   idleConnections (run poolOfTwo (twoIdle @ [GetConnection 2000 []]) initial) = [1] \<and>
   idleConnections (run poolOfTwo (twoIdle @ [GetConnection 2000 [], PingDone 0 False 2001 []]) initial) = [] \<and>
   activeConnections (run poolOfTwo (twoIdle @ [GetConnection 2000 [], PingDone 0 False 2001 []]) initial) = [1] \<and>
   pinging (run poolOfTwo (twoIdle @ [GetConnection 2000 [], PingDone 0 False 2001 []]) initial) =
     [(1, Some (0, None, []))] \<and>
   effects (run poolOfTwo (twoIdle @ [GetConnection 2000 [], PingDone 0 False 2001 []]) initial) =
     [CallConnect 0, CallConnect 1, CallPing 0, CallPing 1] \<and>
   settlements 0 (run poolOfTwo (twoIdle @ [GetConnection 2000 [], PingDone 0 False 2001 []]) initial) = []"
proof -
  let ?s = "run poolOfTwo (twoIdle @ [GetConnection 2000 []]) initial"
  have u: "\<not> useCallback poolOfTwo" by (simp add: poolOfTwo_def)
  have a: "map_of (pinging ?s) 0 = Some (Some (0, None, []))"
    and b: "idleConnections ?s = [1]" and c: "activeConnections ?s = [0]"
    and d: "lastUse ?s 1 = 1050" and e: "effects ?s = [CallConnect 0, CallConnect 1, CallPing 0]"
    and f: "pinging ?s = [(0, Some (0, None, []))]"
    by (simp_all add: poolOfTwo_def twoIdle_def eval_defs)
  have st: "stale poolOfTwo 2001 (lastUse ?s) 1"
    using d by (simp add: stale_def poolOfTwo_def)
  then have dr: "dropWhile (dropped poolOfTwo 2001 [] (lastUse ?s)) (idleConnections ?s) = [1]"
    and tk: "takeWhile (dropped poolOfTwo 2001 [] (lastUse ?s)) (idleConnections ?s) = []"
    using b by (simp_all add: dropped_def)
  have r: "run poolOfTwo (twoIdle @ [GetConnection 2000 [], PingDone 0 False 2001 []]) initial =
      step poolOfTwo (PingDone 0 False 2001 []) ?s"
    by (simp add: twoIdle_def)
  have se: "settlements 0 ?s = []" using e by (simp add: settlements_def)
  from failed_probe_retries_next_idle[of poolOfTwo ?s 0 "(0, None, [])" 2001 "[]"] u a
  show ?thesis
    unfolding r using b c e f st se by (simp add: dropped_def)
qed

text \<open>
  In the callback variant a failed probe leaves the request with no handler: its promise
  is pending nowhere and is never settled, while the next idle session is probed and,
  when its probe succeeds, stays in the Active Set with nobody holding it.
\<close>

lemma callback_probe_failure_orphans_request:
  "promisesOf (run callbackPool (twoIdle @ [GetConnection 2000 [], PingDone 0 False 2001 []]) initial) = [] \<and>
   settlements 0 (run callbackPool
     (twoIdle @ [GetConnection 2000 [], PingDone 0 False 2001 []] @ es) initial) = [] \<and>
   pinging (run callbackPool (twoIdle @ [GetConnection 2000 [], PingDone 0 False 2001 []]) initial) =
     [(1, None)] \<and>
   activeConnections (run callbackPool
     (twoIdle @ [GetConnection 2000 [], PingDone 0 False 2001 [], PingDone 1 True 2002 []]) initial) = [1] \<and>
   promisesOf (run callbackPool
     (twoIdle @ [GetConnection 2000 [], PingDone 0 False 2001 [], PingDone 1 True 2002 []]) initial) = [] \<and>
   effects (run callbackPool
     (twoIdle @ [GetConnection 2000 [], PingDone 0 False 2001 [], PingDone 1 True 2002 []]) initial) =
     [CallConnect 0, CallConnect 1, CallPing 0, CallPing 1]"
proof -
  let ?s = "run callbackPool (twoIdle @ [GetConnection 2000 [], PingDone 0 False 2001 []]) initial"
  have p: "promisesOf ?s = []" and e: "effects ?s = [CallConnect 0, CallConnect 1, CallPing 0, CallPing 1]"
    and n: "nextPromise ?s = 1" and g: "pinging ?s = [(1, None)]"
    by (simp_all add: callbackPool_def twoIdle_def eval_defs promisesOf_def)
  then have "0 \<notin># acct ?s" by (simp add: acct_def allPromises_def)
  moreover have "0 < nextPromise ?s" using n by simp
  ultimately have "0 \<notin># acct (run callbackPool es ?s)" by (rule absent_run)
  then have "settlements 0 (run callbackPool es ?s) = []" by (rule absent_unsettled)
  moreover have "run callbackPool (twoIdle @ [GetConnection 2000 [], PingDone 0 False 2001 []] @ es) initial =
      run callbackPool es ?s"
    by (simp add: twoIdle_def)
  moreover have "activeConnections (run callbackPool
     (twoIdle @ [GetConnection 2000 [], PingDone 0 False 2001 [], PingDone 1 True 2002 []]) initial) = [1]"
    "promisesOf (run callbackPool
     (twoIdle @ [GetConnection 2000 [], PingDone 0 False 2001 [], PingDone 1 True 2002 []]) initial) = []"
    "effects (run callbackPool
     (twoIdle @ [GetConnection 2000 [], PingDone 0 False 2001 [], PingDone 1 True 2002 []]) initial) =
     [CallConnect 0, CallConnect 1, CallPing 0, CallPing 1]"
    by (simp_all add: callbackPool_def twoIdle_def eval_defs promisesOf_def)
  ultimately show ?thesis using p g by simp
qed

section \<open>The closed pool (C6)\<close>

text \<open>
  C6. Once \<open>closed\<close> is set it stays set, whatever happens next, and the sessions of the
  pool (idle or active) only decrease: none is added. On a closed pool \<open>getConnection\<close>
  and \<open>query\<close> return a promise rejected with the pool-closed error and change nothing
  else (no waiter is queued, no creation is started), and a creation that completes calls
  \<open>end\<close> on the new connection and does not add it.
\<close>

theorem closed_pool_admits_nothing:
  "closed s \<longrightarrow>
     closed (run cfg es s) \<and>
     sessions (run cfg es s) \<subseteq> sessions s \<and>
     getConnection cfg now valid s =
       s\<lparr>nextPromise := Suc (nextPromise s),
         effects := effects s @ [Rejected (nextPromise s) poolClosedError]\<rparr> \<and>
     query cfg q v now valid s =
       s\<lparr>nextPromise := Suc (nextPromise s),
         effects := effects s @ [Rejected (nextPromise s) poolClosedError]\<rparr> \<and>
     (map_of (connecting s) c = Some p \<longrightarrow>
        step cfg (ConnectDone c True now) s =
          s\<lparr>connecting := remove1 (c, p) (connecting s), effects := effects s @ [CallEnd c]\<rparr>)"
proof
  assume c: "closed s"
  from closed_run[OF c, of cfg es] c
  show "closed (run cfg es s) \<and>
     sessions (run cfg es s) \<subseteq> sessions s \<and>
     getConnection cfg now valid s =
       s\<lparr>nextPromise := Suc (nextPromise s),
         effects := effects s @ [Rejected (nextPromise s) poolClosedError]\<rparr> \<and>
     query cfg q v now valid s =
       s\<lparr>nextPromise := Suc (nextPromise s),
         effects := effects s @ [Rejected (nextPromise s) poolClosedError]\<rparr> \<and>
     (map_of (connecting s) c = Some p \<longrightarrow>
        step cfg (ConnectDone c True now) s =
          s\<lparr>connecting := remove1 (c, p) (connecting s), effects := effects s @ [CallEnd c]\<rparr>)"
    by (simp add: getConnection_def query_def handleRequest_def Let_def connectDone_def
          connectThen_def)
qed

theorem closed_pool_admits_nothing_witness:
  "closed (run poolOfOne [ActivatePool, EndPool] initial) \<and>
   connecting (run poolOfOne [ActivatePool, EndPool] initial) = [(0, True)] \<and>
   closed (run poolOfOne [ActivatePool, EndPool, ConnectDone 0 True 5, GetConnection 6 [0]] initial) \<and>
   sessions (run poolOfOne [ActivatePool, EndPool, ConnectDone 0 True 5, GetConnection 6 [0]] initial) = {} \<and>
   taskQueue (run poolOfOne [ActivatePool, EndPool, ConnectDone 0 True 5, GetConnection 6 [0]] initial) = [] \<and>
   effects (run poolOfOne [ActivatePool, EndPool, ConnectDone 0 True 5, GetConnection 6 [0]] initial) =
     [CallConnect 0, AwaitAll 0 [], CallEnd 0, Rejected 1 poolClosedError]"
proof -
  let ?s = "run poolOfOne [ActivatePool, EndPool] initial"
  have a: "closed ?s" and b: "connecting ?s = [(0, True)]" and c: "sessions ?s = {}"
    by (simp_all add: poolOfOne_def eval_defs sessions_def)
  have r: "run poolOfOne [ActivatePool, EndPool, ConnectDone 0 True 5, GetConnection 6 [0]] initial =
      run poolOfOne [ConnectDone 0 True 5, GetConnection 6 [0]] ?s"
    by simp
  have d: "taskQueue (run poolOfOne [ActivatePool, EndPool, ConnectDone 0 True 5, GetConnection 6 [0]]
      initial) = []"
    and e: "effects (run poolOfOne [ActivatePool, EndPool, ConnectDone 0 True 5, GetConnection 6 [0]]
      initial) = [CallConnect 0, AwaitAll 0 [], CallEnd 0, Rejected 1 poolClosedError]"
    by (simp_all add: poolOfOne_def eval_defs)
  from closed_pool_admits_nothing[of ?s poolOfOne "[ConnectDone 0 True 5, GetConnection 6 [0]]"] a b c d e
  show ?thesis unfolding r by simp
qed

section \<open>Closing the pool (C8)\<close>

text \<open>
  On an open pool \<open>end\<close> sets \<open>closed\<close>, cancels the timer (its firing changes nothing
  any more), empties the Idle Set calling the wrapped \<open>end\<close> once on each session that
  was idle, in order, clears the waiter queue and schedules no rejection. No promise of a
  waiter that was queued is settled in any continuation of the run (the promises of a run
  from the initial state are pairwise distinct). The promise it returns collects the
  endings in the promise variant, and nothing in the callback variant. On a closed pool
  \<open>end\<close> only returns a promise rejected with the pool-closed error; a rollback that
  completes then ends its session.
\<close>

lemma endPool_drains_and_discards:
  "(\<not> closed s \<longrightarrow>
      closed (endPool cfg s) \<and>
      step cfg (TimerFire now) (endPool cfg s) = endPool cfg s \<and>
      idleConnections (endPool cfg s) = [] \<and>
      effects (endPool cfg s) =
        effects s @ map CallRollback (idleConnections s) @
          [AwaitAll (nextPromise s) (if useCallback cfg then [] else idleConnections s)] \<and>
      rollingBack (endPool cfg s) = rollingBack s @ idleConnections s \<and>
      taskQueue (endPool cfg s) = [] \<and>
      ticks (endPool cfg s) = ticks s \<and>
      (promisesOk s \<longrightarrow>
         list_all (\<lambda>t. settlements (promise t) (run cfg es (endPool cfg s)) = []) (taskQueue s))) \<and>
   (closed s \<longrightarrow>
      endPool cfg s =
        s\<lparr>nextPromise := Suc (nextPromise s),
          firstTaskTimeout := map_option (\<lambda>t. t\<lparr>live := False\<rparr>) (firstTaskTimeout s),
          effects := effects s @ [Rejected (nextPromise s) poolClosedError]\<rparr> \<and>
      (c \<in> set (rollingBack s) \<longrightarrow>
         effects (step cfg (RollbackDone c True now) s) = effects s @ [CallEnd c])) \<and>
   promisesOk (run cfg es' initial)"
proof (intro conjI impI)
  assume o: "\<not> closed s"
  then show "closed (endPool cfg s)" "idleConnections (endPool cfg s) = []"
    "effects (endPool cfg s) =
        effects s @ map CallRollback (idleConnections s) @
          [AwaitAll (nextPromise s) (if useCallback cfg then [] else idleConnections s)]"
    "rollingBack (endPool cfg s) = rollingBack s @ idleConnections s"
    "taskQueue (endPool cfg s) = []" "ticks (endPool cfg s) = ticks s"
    by (simp_all add: endPool_def Let_def drainIdle_shape)
  show "step cfg (TimerFire now) (endPool cfg s) = endPool cfg s"
    using o by (cases "firstTaskTimeout s") (simp_all add: endPool_def Let_def drainIdle_shape)
  assume "promisesOk s"
  with o show "list_all (\<lambda>t. settlements (promise t) (run cfg es (endPool cfg s)) = []) (taskQueue s)"
    by (simp add: list_all_iff discarded_never_settles)
next
  assume c: "closed s"
  then show "endPool cfg s =
        s\<lparr>nextPromise := Suc (nextPromise s),
          firstTaskTimeout := map_option (\<lambda>t. t\<lparr>live := False\<rparr>) (firstTaskTimeout s),
          effects := effects s @ [Rejected (nextPromise s) poolClosedError]\<rparr>"
    by (simp add: endPool_def Let_def)
  assume "c \<in> set (rollingBack s)"
  with c show "effects (step cfg (RollbackDone c True now) s) = effects s @ [CallEnd c]"
    by (simp add: rollbackDone_def Let_def)
next
  show "promisesOk (run cfg es' initial)"
    using promisesOk_initial by (rule promisesOk_run)
qed

text \<open>
  C8. The callback pool of two idle sessions is closed: the wrapped \<open>end\<close> is called on
  both sessions, but the promise that \<open>end\<close> returns is \<open>Promise.all\<close> over two
  \<open>undefined\<close> values: it awaits no ending, and is resolved while both rollbacks are
  pending and before the sessions are ended. In the promise variant the same call awaits
  the endings of both sessions.
\<close>

theorem close_collects_no_ending_in_callback_variant:
  "idleConnections (run callbackPool twoIdle initial) = [0, 1] \<and>
   effects (run callbackPool (twoIdle @ [EndPool]) initial) =
     [CallConnect 0, CallConnect 1, CallRollback 0, CallRollback 1, AwaitAll 0 []] \<and>
   rollingBack (run callbackPool (twoIdle @ [EndPool]) initial) = [0, 1] \<and>
   effects (run callbackPool (twoIdle @ [EndPool, RollbackDone 0 True 1060, RollbackDone 1 True 1061])
     initial) =
     [CallConnect 0, CallConnect 1, CallRollback 0, CallRollback 1, AwaitAll 0 [], CallEnd 0,
      CallEnd 1] \<and>
   effects (run poolOfTwo (twoIdle @ [EndPool]) initial) =
     [CallConnect 0, CallConnect 1, CallRollback 0, CallRollback 1, AwaitAll 0 [0, 1]]"
  by (simp add: callbackPool_def poolOfTwo_def twoIdle_def eval_defs)

end
